theory Spec2Isabelle
  imports Main
begin

section \<open>Python values used by the diff view\<close>

text \<open>
  The source is \<^verbatim>\<open>core/commands/diff.py\<close>. Python strings are modelled as
  \<^typ>\<open>string\<close>; a character of the buffer is one \<^typ>\<open>char\<close>. Python integers
  (points, rows, columns, line numbers) are \<^typ>\<open>int\<close>. Every exception the
  modelled code can raise is a value of \<open>error\<close>.
\<close>

datatype git_error = UnicodeDecodeError | OtherGitError

datatype error = IndexError | ValueError | AttributeError | GitSavvyError git_error

definition NL :: char where
  "NL = CHR 0x0A"

definition startswith :: "string \<Rightarrow> string \<Rightarrow> bool" where
  "startswith s p = (take (length p) s = p)"

text \<open>\<^verbatim>\<open>s.split('\n')\<close>: always at least one piece.\<close>

fun split_nl :: "string \<Rightarrow> string list" where
  "split_nl [] = [[]]"
| "split_nl (c # cs) =
     (if c = NL then [] # split_nl cs
      else (case split_nl cs of [] \<Rightarrow> [[c]] | l # ls \<Rightarrow> (c # l) # ls))"

text \<open>\<^verbatim>\<open>'\n'.join(lines)\<close>.\<close>

fun join_nl :: "string list \<Rightarrow> string" where
  "join_nl [] = []"
| "join_nl [l] = l"
| "join_nl (l # ls) = l @ NL # join_nl ls"

text \<open>
  \<^verbatim>\<open>str.isspace\<close> on one character, for the code points below 256: TAB, LF, VT, FF, CR,
  the separators 0x1C to 0x1F, SPACE, NEL and NBSP.
\<close>

definition isspace :: "char \<Rightarrow> bool" where
  "isspace c = (let n = (of_char c :: nat) in
     (9 \<le> n \<and> n \<le> 13) \<or> (28 \<le> n \<and> n \<le> 32) \<or> n = 133 \<or> n = 160)"

definition lstrip :: "string \<Rightarrow> string" where
  "lstrip s = dropWhile isspace s"

definition rstrip :: "string \<Rightarrow> string" where
  "rstrip s = rev (dropWhile isspace (rev s))"

definition strip :: "string \<Rightarrow> string" where
  "strip s = lstrip (rstrip s)"

text \<open>\<^verbatim>\<open>xs[i]\<close> with Python's negative indices and its IndexError.\<close>

definition py_index :: "'a list \<Rightarrow> int \<Rightarrow> error + 'a" where
  "py_index xs i =
     (if 0 \<le> i \<and> i < int (length xs) then Inr (xs ! nat i)
      else if i < 0 \<and> - int (length xs) \<le> i then Inr (xs ! nat (int (length xs) + i))
      else Inl IndexError)"

text \<open>\<^verbatim>\<open>xs[i:]\<close> with Python's negative start.\<close>

definition py_slice_from :: "'a list \<Rightarrow> int \<Rightarrow> 'a list" where
  "py_slice_from xs i =
     (if i < 0 then drop (nat (int (length xs) + i)) xs else drop (nat i) xs)"

section \<open>HunkLine and the hunk splitter\<close>

record HunkLine =
  mode :: char
  line_text :: string
  b :: int

text \<open>
  \<^verbatim>\<open>_recount_lines(lines, b)\<close>: the generator is consumed by \<^verbatim>\<open>list(...)\<close>, so it
  is modelled by the list it yields. \<^verbatim>\<open>line[0]\<close> raises IndexError on an empty line.
\<close>

fun recount_lines :: "string list \<Rightarrow> int \<Rightarrow> error + HunkLine list" where
  "recount_lines [] n = Inr []"
| "recount_lines (line # lines) n =
     (case line of
        [] \<Rightarrow> Inl IndexError
      | first_char # tail \<Rightarrow>
          (case recount_lines lines (if first_char \<noteq> CHR ''-'' then n + 1 else n) of
             Inl e \<Rightarrow> Inl e
           | Inr rest \<Rightarrow> Inr (\<lparr>mode = first_char, line_text = tail, b = n\<rparr> # rest)))"

text \<open>
  \<^verbatim>\<open>HUNKS_LINES_RE = re.compile(r'@@ -(\d+)(?:,\d+)? \+(\d+)(?:,\d+)? ')\<close>.
  Every piece of the pattern is followed by a literal that a digit cannot match, so the
  greedy choice at each piece is the only one that can succeed and the matcher needs no
  backtracking.
\<close>

definition is_digit :: "char \<Rightarrow> bool" where
  "is_digit c = (c \<in> set ''0123456789'')"

definition match_lit :: "string \<Rightarrow> string \<Rightarrow> string option" where
  "match_lit p s = (if startswith s p then Some (drop (length p) s) else None)"

definition match_digits :: "string \<Rightarrow> (string \<times> string) option" where
  "match_digits s =
     (let ds = takeWhile is_digit s
      in if ds = [] then None else Some (ds, dropWhile is_digit s))"

definition match_opt_count :: "string \<Rightarrow> string" where
  "match_opt_count s =
     (case s of
        [] \<Rightarrow> s
      | c # cs \<Rightarrow>
          (if c = CHR '','' then
             (case match_digits cs of None \<Rightarrow> s | Some (ds, r) \<Rightarrow> r)
           else s))"

definition HUNKS_LINES_RE_match :: "string \<Rightarrow> (string \<times> string) option" where
  "HUNKS_LINES_RE_match s =
     (case match_lit ''@@ -'' s of
        None \<Rightarrow> None
      | Some r1 \<Rightarrow>
     (case match_digits r1 of
        None \<Rightarrow> None
      | Some (g1, r2) \<Rightarrow>
     (case match_lit '' +'' (match_opt_count r2) of
        None \<Rightarrow> None
      | Some r3 \<Rightarrow>
     (case match_digits r3 of
        None \<Rightarrow> None
      | Some (g2, r4) \<Rightarrow>
     (case match_lit '' '' (match_opt_count r4) of
        None \<Rightarrow> None
      | Some r5 \<Rightarrow> Some (g1, g2))))))"

text \<open>\<^verbatim>\<open>HUNKS_LINES_RE.search(head)\<close>: the leftmost match; the two groups.\<close>

fun HUNKS_LINES_RE_search :: "string \<Rightarrow> (string \<times> string) option" where
  "HUNKS_LINES_RE_search [] = None"
| "HUNKS_LINES_RE_search (c # cs) =
     (case HUNKS_LINES_RE_match (c # cs) of
        Some g \<Rightarrow> Some g
      | None \<Rightarrow> HUNKS_LINES_RE_search cs)"

text \<open>\<^verbatim>\<open>int(digits)\<close> on a string of decimal digits.\<close>

definition digit_val :: "char \<Rightarrow> int" where
  "digit_val c = int (of_char c) - 48"

definition int_of_digits :: "string \<Rightarrow> int" where
  "int_of_digits ds = foldl (\<lambda>acc c. 10 * acc + digit_val c) 0 ds"

text \<open>
  \<^verbatim>\<open>split_hunk(hunk)\<close>: \<open>Inr None\<close> is the source's \<^verbatim>\<open>return None\<close>, \<open>Inl\<close> an
  exception. \<^verbatim>\<open>head, *tail = ...\<close> cannot fail because \<^verbatim>\<open>split\<close> returns at least
  one piece; the branch is kept so that the case distinction is total.
\<close>

definition split_hunk :: "string \<Rightarrow> error + HunkLine list option" where
  "split_hunk hunk =
     (case split_nl (rstrip hunk) of
        [] \<Rightarrow> Inl ValueError
      | head # tail \<Rightarrow>
          (case HUNKS_LINES_RE_search head of
             None \<Rightarrow> Inr None
           | Some (g1, g2) \<Rightarrow>
               (case recount_lines tail (int_of_digits g2) of
                  Inl e \<Rightarrow> Inl e
                | Inr ls \<Rightarrow> Inr (Some ls))))"

definition line_indentation :: "string \<Rightarrow> nat" where
  "line_indentation line = length line - length (lstrip line)"

section \<open>The coordinate mapper\<close>

text \<open>
  The \<^verbatim>\<open>next(...)\<close> of \<^verbatim>\<open>real_rowcol_in_hunk\<close>: the 1-based index of the first line
  with mode \<^verbatim>\<open>+\<close> or space and non-blank text, default 1. The first argument is the
  index of the head of the list.
\<close>

fun first_content_row :: "int \<Rightarrow> HunkLine list \<Rightarrow> int" where
  "first_content_row i [] = 1"
| "first_content_row i (line # lines) =
     (if (mode line = CHR ''+'' \<or> mode line = CHR '' '') \<and> strip (line_text line) \<noteq> []
      then i else first_content_row (i + 1) lines)"

text \<open>
  The \<^verbatim>\<open>for next_line in hunk_lines[row_in_hunk:]\<close> loop with its \<^verbatim>\<open>else\<close> branch;
  \<open>line\<close> is the deleted line the user is on.
\<close>

fun next_available :: "HunkLine \<Rightarrow> int \<Rightarrow> HunkLine list \<Rightarrow> int \<times> int" where
  "next_available line col [] = (b line, 1)"
| "next_available line col (next_line # rest) =
     (if mode next_line = CHR ''+'' then
        (b next_line, min col (int (length (line_text next_line)) + 1))
      else if mode next_line = CHR '' '' then
        (let next_lines_indentation = line_indentation (line_text next_line)
         in if next_lines_indentation = line_indentation (line_text line)
            then (b next_line, int next_lines_indentation + 1)
            else (max 1 (b line - 1), 1))
      else next_available line col rest)"

definition real_rowcol_in_hunk :: "string \<Rightarrow> int \<times> int \<Rightarrow> error + (int \<times> int) option" where
  "real_rowcol_in_hunk hunk relative_rowcol =
     (case split_hunk hunk of
        Inl e \<Rightarrow> Inl e
      | Inr None \<Rightarrow> Inr None
      | Inr (Some hunk_lines) \<Rightarrow>
          if hunk_lines = [] then Inr None
          else
            (let row0 = fst relative_rowcol;
                 row_in_hunk = (if row0 = 0 then first_content_row 1 hunk_lines else row0);
                 col = (if row0 = 0 then 1 else snd relative_rowcol)
             in case py_index hunk_lines (row_in_hunk - 1) of
                  Inl e \<Rightarrow> Inl e
                | Inr line \<Rightarrow>
                    if mode line \<noteq> CHR ''-'' then Inr (Some (b line, col))
                    else Inr (Some (next_available line col
                                      (py_slice_from hunk_lines row_in_hunk)))))"

section \<open>Symmetric shrinking\<close>

text \<open>
  \<^verbatim>\<open>shrink_list_sym(list)\<close> is a generator; the model is the list of the values it
  yields, in order. \<^verbatim>\<open>list[1:-1]\<close> is \<open>butlast (tl list)\<close>.
\<close>

function shrink_list_sym :: "'a list \<Rightarrow> 'a list list" where
  "shrink_list_sym xs = (if xs = [] then [] else xs # shrink_list_sym (butlast (tl xs)))"
  by pat_completeness auto
termination
  by (relation "measure length") (auto simp: less_Suc_eq_le intro: le_trans)

section \<open>The view, its settings and the outside world\<close>

type_synonym region = "int \<times> int"

text \<open>
  One entry of the undo history: the arguments of the apply call, the patch, the cursor
  points and the cached mode at the time.
\<close>

type_synonym undo_entry = "string option list \<times> string \<times> int list \<times> bool"

text \<open>
  The settings of a diff view that this module reads and writes, as typed fields. A
  setting that may be absent or \<^verbatim>\<open>None\<close> is an option; \<open>disable_diff\<close> is the key
  \<^verbatim>\<open>git_savvy.disable_diff\<close>, the others are the keys under \<^verbatim>\<open>git_savvy.diff_view.\<close>
\<close>

record settings =
  in_cached_mode :: bool
  ignore_whitespace :: bool
  show_word_diff :: bool
  context_lines :: "int option"
  base_commit :: "string option"
  target_commit :: "string option"
  show_diffstat :: bool
  disable_stage :: bool
  history :: "undo_entry list"
  just_hunked :: string
  last_cursors :: "region list"
  raw_diff :: "string option"
  disable_diff :: bool

text \<open>
  What the commands do to the world outside the view is recorded in a log, in order:
  a call of \<^verbatim>\<open>self.git\<close> with its arguments and standard input, messages to the user,
  commands of other modules, and \<^verbatim>\<open>view.show\<close>.
\<close>

datatype event =
    GitCall "string option list" "string option"
  | ErrorMessage string
  | StatusMessage string
  | RunCommand string
  | Show "region list"

record view =
  content :: string
  sel :: "region list"
  has_window :: bool
  file_path :: "string option"
  repo_path :: string
  settings :: settings
  log :: "event list"

text \<open>
  \<^verbatim>\<open>GitCommand.git\<close> and \<^verbatim>\<open>os.path.relpath\<close> are parameters. The answer of git may
  depend on everything that happened before the call (the log), on the arguments and on
  the standard input; it is the output or a \<^verbatim>\<open>GitSavvyError\<close>, whose first argument
  is a \<^verbatim>\<open>UnicodeDecodeError\<close> or not.

  Two commands of other modules place the cursors: \<^verbatim>\<open>gs_replace_view_text\<close> with
  \<^verbatim>\<open>restore_cursors\<close> and \<^verbatim>\<open>gs_diff_navigate\<close>, which travels to a hunk. Where they
  put the selection is a parameter too: \<open>restore_cursors\<close> gets the new text and the view
  before the replacement, \<open>navigate\<close> the view before the move.
\<close>

datatype git_outcome = GitOk string | GitFail git_error

record env =
  git :: "event list \<Rightarrow> string option list \<Rightarrow> string option \<Rightarrow> git_outcome"
  relpath :: "string \<Rightarrow> string \<Rightarrow> string"
  restore_cursors :: "string \<Rightarrow> view \<Rightarrow> (int \<times> int) list"
  navigate :: "view \<Rightarrow> (int \<times> int) list"

text \<open>A command returns the exception it raised, if any, and the view it leaves.\<close>

type_synonym outcome = "error option \<times> view"

subsection \<open>The editor's buffer primitives\<close>

text \<open>
  The host editor's API is outside the repository. It is modelled on a buffer that is a
  string: points are offsets, a region is a pair of points, a row is a line of the
  buffer split at newlines.
\<close>

fun offsets :: "int \<Rightarrow> string list \<Rightarrow> (int \<times> string) list" where
  "offsets a [] = []"
| "offsets a (l # ls) = (a, l) # offsets (a + int (length l) + 1) ls"

definition buffer_lines :: "string \<Rightarrow> (int \<times> string) list" where
  "buffer_lines s = offsets 0 (split_nl s)"

text \<open>\<^verbatim>\<open>view.size()\<close>.\<close>

definition view_size :: "view \<Rightarrow> int" where
  "view_size v = int (length (content v))"

text \<open>\<^verbatim>\<open>view.substr(sublime.Region(a, b))\<close>: the region is ordered and clipped.\<close>

definition view_substr :: "view \<Rightarrow> region \<Rightarrow> string" where
  "view_substr v r =
     (let lo = max 0 (min (fst r) (snd r));
          hi = min (view_size v) (max (fst r) (snd r))
      in take (nat (hi - lo)) (drop (nat lo) (content v)))"

text \<open>
  \<^verbatim>\<open>view.find(pattern, 0, sublime.LITERAL)\<close>: the region of the first occurrence, or the
  region \<open>(-1, -1)\<close>. The first argument of the helper is the offset of the text that is
  left to search.
\<close>

fun find_literal_from :: "int \<Rightarrow> string \<Rightarrow> string \<Rightarrow> region" where
  "find_literal_from i p [] = (if p = [] then (i, i) else (-1, -1))"
| "find_literal_from i p (c # cs) =
     (if startswith (c # cs) p then (i, i + int (length p))
      else find_literal_from (i + 1) p cs)"

definition view_find :: "view \<Rightarrow> string \<Rightarrow> region" where
  "view_find v p = find_literal_from 0 p (content v)"

text \<open>The truth value of a region in Python: its length is not zero.\<close>

definition region_bool :: "region \<Rightarrow> bool" where
  "region_bool r = (snd r \<noteq> fst r)"

text \<open>\<^verbatim>\<open>view.find_all("^diff")\<close> and \<^verbatim>\<open>view.find_all("^@@")\<close>: the starts of the matches.\<close>

definition find_all_line_prefix :: "view \<Rightarrow> string \<Rightarrow> int list" where
  "find_all_line_prefix v p = map fst (filter (\<lambda>(a, l). startswith l p) (buffer_lines (content v)))"

text \<open>
  \<^verbatim>\<open>view.find_all(r"^\+\+\+.+\n(?=@@)")\<close>: the ends of the matches. A match is a line that
  starts with three plus signs, has at least one more character, ends with a newline and
  is followed by a line that starts with \<^verbatim>\<open>@@\<close>; it ends after the newline.
\<close>

definition find_all_header_ends :: "view \<Rightarrow> int list" where
  "find_all_header_ends v =
     (let ls = buffer_lines (content v)
      in map (\<lambda>((a, l), (a', l')). a')
           (filter (\<lambda>((a, l), (a', l')). startswith l ''+++'' \<and> 3 < length l \<and> startswith l' ''@@'')
              (zip ls (tl ls))))"

text \<open>\<^verbatim>\<open>view.rowcol(pt)\<close>, the row only: the number of newlines before the point.\<close>

definition view_row :: "view \<Rightarrow> int \<Rightarrow> nat" where
  "view_row v pt = length (filter (\<lambda>c. c = NL) (take (nat pt) (content v)))"

text \<open>\<^verbatim>\<open>view.line(view.text_point(row, 0))\<close> for each row of the buffer, in order.\<close>

definition view_line_regions :: "view \<Rightarrow> region list" where
  "view_line_regions v = map (\<lambda>(a, l). (a, a + int (length l))) (buffer_lines (content v))"

section \<open>Parsing the diff in the view\<close>

record ParsedDiff =
  headers :: "region list"
  hunks :: "region list"

text \<open>
  \<^verbatim>\<open>parse_diff_in_view(view)\<close>. The sorted list of the union of the three sets is
  written as sorting the concatenation without duplicates; \<^verbatim>\<open>zip\<close> stops at the
  shorter list.
\<close>

definition parse_diff_in_view :: "view \<Rightarrow> ParsedDiff" where
  "parse_diff_in_view v =
     (let header_starts = find_all_line_prefix v ''diff'';
          header_ends = find_all_header_ends v;
          hunk_starts = find_all_line_prefix v ''@@'';
          hunk_ends = sort (remdups
            (tl header_starts @
             filter (\<lambda>a. a \<notin> set header_ends) hunk_starts @
             [view_size v + 1]))
      in \<lparr>headers = zip header_starts header_ends, hunks = zip hunk_starts hunk_ends\<rparr>)"

text \<open>The order of Python tuples of two integers.\<close>

definition tuple_less :: "region \<Rightarrow> region \<Rightarrow> bool" where
  "tuple_less x y = (fst x < fst y \<or> (fst x = fst y \<and> snd x < snd y))"

text \<open>\<^verbatim>\<open>max\<close> of a non-empty sequence of tuples, given as its first element and the rest.\<close>

definition tuple_max :: "region \<Rightarrow> region list \<Rightarrow> region" where
  "tuple_max x xs = foldl (\<lambda>m y. if tuple_less m y then y else m) x xs"

text \<open>
  \<^verbatim>\<open>head_and_hunk_for_pt(diff, pt)\<close>: \<open>Inr None\<close> is \<^verbatim>\<open>return None\<close>; \<^verbatim>\<open>max\<close> of an
  empty sequence raises ValueError.
\<close>

definition head_and_hunk_for_pt :: "ParsedDiff \<Rightarrow> int \<Rightarrow> error + (region \<times> region) option" where
  "head_and_hunk_for_pt diff pt =
     (case find (\<lambda>(hunk_start, hunk_end). hunk_start \<le> pt \<and> pt < hunk_end) (hunks diff) of
        None \<Rightarrow> Inr None
      | Some hunk \<Rightarrow>
          (case filter (\<lambda>header. tuple_less header hunk) (headers diff) of
             [] \<Rightarrow> Inl ValueError
           | h # hs \<Rightarrow> Inr (Some (tuple_max h hs, hunk))))"

definition extract_content :: "view \<Rightarrow> region \<Rightarrow> string" where
  "extract_content v r = view_substr v r"

text \<open>\<^verbatim>\<open>unique(items)\<close>; the accumulator \<open>rv\<close> is the first argument of the loop.\<close>

fun unique_loop :: "'a list \<Rightarrow> 'a list \<Rightarrow> 'a list" where
  "unique_loop rv [] = rv"
| "unique_loop rv (item # items) =
     (if item \<notin> set rv then unique_loop (rv @ [item]) items else unique_loop rv items)"

definition unique :: "'a list \<Rightarrow> 'a list" where
  "unique items = unique_loop [] items"

section \<open>Finding a hunk again\<close>

definition not_hunk_start :: "string \<Rightarrow> bool" where
  "not_hunk_start line = (\<not> startswith line ''@@ '')"

definition extract_first_hunk :: "string \<Rightarrow> string list option" where
  "extract_first_hunk patch =
     (case dropWhile not_hunk_start (split_nl patch) of
        [] \<Rightarrow> None
      | start # rest \<Rightarrow> Some (start # takeWhile not_hunk_start rest))"

text \<open>
  \<^verbatim>\<open>find_hunk_start_before_pt(view, pt)\<close>: the rows before the row of the point, from the
  nearest one upwards.
\<close>

definition line_regions_before_pt :: "view \<Rightarrow> int \<Rightarrow> region list" where
  "line_regions_before_pt v pt = rev (take (view_row v pt) (view_line_regions v))"

definition find_hunk_start_before_pt :: "view \<Rightarrow> int \<Rightarrow> region option" where
  "find_hunk_start_before_pt v pt =
     find (\<lambda>region. startswith (view_substr v region) ''@@ '') (line_regions_before_pt v pt)"

fun fuzzy_search_loop :: "view \<Rightarrow> string list list \<Rightarrow> region option" where
  "fuzzy_search_loop v [] = None"
| "fuzzy_search_loop v (hunk_content # others) =
     (let region = view_find v (join_nl hunk_content)
      in if region_bool region then find_hunk_start_before_pt v (fst region)
         else fuzzy_search_loop v others)"

definition fuzzy_search_hunk_content_in_view :: "view \<Rightarrow> string list \<Rightarrow> region option" where
  "fuzzy_search_hunk_content_in_view v lines = fuzzy_search_loop v (shrink_list_sym lines)"

definition find_hunk_in_view :: "view \<Rightarrow> string \<Rightarrow> region option" where
  "find_hunk_in_view v patch =
     (case extract_first_hunk patch of
        None \<Rightarrow> None
      | Some hunk_content \<Rightarrow>
          (let region = view_find v (hd hunk_content)
           in if region_bool region then Some region
              else fuzzy_search_hunk_content_in_view v (tl hunk_content)))"

section \<open>Commands of the diff view\<close>

text \<open>Truth value, \<^verbatim>\<open>or\<close> and \<^verbatim>\<open>"{}".format\<close> of an optional string.\<close>

definition str_truthy :: "string option \<Rightarrow> bool" where
  "str_truthy x = (case x of None \<Rightarrow> False | Some s \<Rightarrow> s \<noteq> [])"

definition py_or :: "string option \<Rightarrow> string option \<Rightarrow> string option" where
  "py_or x y = (if str_truthy x then x else y)"

definition format_opt :: "string option \<Rightarrow> string" where
  "format_opt x = (case x of None \<Rightarrow> ''None'' | Some s \<Rightarrow> s)"

text \<open>\<^verbatim>\<open>"{}".format(n)\<close> of an integer.\<close>

function str_nat :: "nat \<Rightarrow> string" where
  "str_nat n =
     (if n < 10 then [char_of (48 + n)]
      else str_nat (n div 10) @ [char_of (48 + n mod 10)])"
  by pat_completeness auto
termination
  by (relation "measure id") auto

definition str_int :: "int \<Rightarrow> string" where
  "str_int i = (if i < 0 then CHR ''-'' # str_nat (nat (- i)) else str_nat (nat i))"

text \<open>
  Modelled from the spec: the command \<^verbatim>\<open>gs_replace_view_text\<close> is defined in another
  module. The specification's buffer collaborator has \<^verbatim>\<open>replaceAll(newText)\<close>: the
  content of the view becomes the text. The command is called with
  \<^verbatim>\<open>restore_cursors: True\<close>; the selection it leaves is the parameter
  \<open>restore_cursors\<close>. The call is logged.
\<close>

definition gs_replace_view_text :: "env \<Rightarrow> string \<Rightarrow> view \<Rightarrow> view" where
  "gs_replace_view_text e t v =
     v\<lparr>content := t, sel := restore_cursors e t v,
       log := log v @ [RunCommand ''gs_replace_view_text'']\<rparr>"

text \<open>
  \<^verbatim>\<open>gs_diff_navigate\<close> travels to a hunk: it moves the cursor. The regions it can travel
  to come from the syntax scopes of the editor and its base class is in another module,
  so the selection it leaves is the parameter \<open>navigate\<close>. The call is logged.
\<close>

definition gs_diff_navigate :: "env \<Rightarrow> view \<Rightarrow> view" where
  "gs_diff_navigate e v =
     v\<lparr>sel := navigate e v, log := log v @ [RunCommand ''gs_diff_navigate'']\<rparr>"

subsection \<open>GsDiffRefreshCommand\<close>

definition refresh_prelude :: "env \<Rightarrow> view \<Rightarrow> string" where
  "refresh_prelude e v =
     (let st = settings v;
          p0 = [NL];
          p1 = (if str_truthy (file_path v)
                then p0 @ ''  FILE: '' @ relpath e (format_opt (file_path v)) (repo_path v) @ [NL]
                else p0);
          p2 = (if disable_stage st then
                  (if in_cached_mode st then
                     p1 @ ''  INDEX..'' @ format_opt (py_or (base_commit st) (target_commit st)) @ [NL]
                   else if str_truthy (base_commit st) \<and> str_truthy (target_commit st) then
                     p1 @ ''  '' @ format_opt (base_commit st) @ ''..'' @
                       format_opt (target_commit st) @ [NL]
                   else
                     p1 @ ''  WORKING DIR..'' @
                       format_opt (py_or (base_commit st) (target_commit st)) @ [NL])
                else
                  (if in_cached_mode st then p1 @ ''  STAGED CHANGES (Will commit)'' @ [NL]
                   else p1 @ ''  UNSTAGED CHANGES'' @ [NL]))
      in if ignore_whitespace st then p2 @ ''  IGNORING WHITESPACE'' @ [NL] else p2)"

definition diff_args :: "view \<Rightarrow> string option list" where
  "diff_args v =
     (let st = settings v
      in [Some ''diff'',
          if ignore_whitespace st then Some ''--ignore-all-space'' else None,
          if show_word_diff st then Some ''--word-diff'' else None,
          (case context_lines st of None \<Rightarrow> None | Some n \<Rightarrow> Some (''--unified='' @ str_int n)),
          if show_diffstat st then Some ''--stat'' else None,
          Some ''--patch'',
          Some ''--no-color'',
          if in_cached_mode st then Some ''--cached'' else None,
          base_commit st,
          target_commit st,
          Some ''--'',
          file_path v])"

text \<open>\<^verbatim>\<open>GsDiffRefreshCommand._run\<close>.\<close>

definition GsDiffRefreshCommand_run_impl :: "env \<Rightarrow> view \<Rightarrow> outcome" where
  "GsDiffRefreshCommand_run_impl e v =
     (if disable_diff (settings v) then (None, v)
      else
        (let args = diff_args v;
             v1 = v\<lparr>log := log v @ [GitCall args None]\<rparr>
         in case git e (log v) args None of
              GitFail err \<Rightarrow>
                (if err = UnicodeDecodeError then
                   (None, v1\<lparr>settings := (settings v1)\<lparr>disable_diff := True\<rparr>\<rparr>)
                 else (Some (GitSavvyError err), v1))
            | GitOk diff \<Rightarrow>
                (let old_diff = raw_diff (settings v1);
                     v2 = v1\<lparr>settings := (settings v1)\<lparr>raw_diff := Some diff\<rparr>\<rparr>;
                     v3 = gs_replace_view_text e (refresh_prelude e v @ NL # ''--'' @ NL # diff) v2
                 in if \<not> str_truthy old_diff then (None, gs_diff_navigate e v3)
                    else (None, v3))))"

text \<open>
  \<^verbatim>\<open>GsDiffRefreshCommand.run(edit, sync)\<close>: with \<^verbatim>\<open>sync=False\<close> the same \<^verbatim>\<open>_run\<close> is
  scheduled; the model runs it at once in both cases.
\<close>

definition GsDiffRefreshCommand_run :: "env \<Rightarrow> bool \<Rightarrow> view \<Rightarrow> outcome" where
  "GsDiffRefreshCommand_run e sync v = GsDiffRefreshCommand_run_impl e v"

text \<open>A sequence of refresh triggers on one view; an exception ends it.\<close>

fun refreshes :: "env \<Rightarrow> bool list \<Rightarrow> view \<Rightarrow> outcome" where
  "refreshes e [] v = (None, v)"
| "refreshes e (sync # syncs) v =
     (case GsDiffRefreshCommand_run e sync v of
        (Some err, v') \<Rightarrow> (Some err, v')
      | (None, v') \<Rightarrow> refreshes e syncs v')"

subsection \<open>GsDiffStageOrResetHunkCommand\<close>

definition apply_args :: "view \<Rightarrow> bool \<Rightarrow> string option list" where
  "apply_args v reset =
     (let st = settings v
      in [Some ''apply'',
          if reset \<or> in_cached_mode st then Some ''-R'' else None,
          if in_cached_mode st \<or> \<not> reset then Some ''--cached'' else None,
          if context_lines st = Some 0 then Some ''--unidiff-zero'' else None,
          Some ''-''])"

definition apply_patch :: "env \<Rightarrow> string \<Rightarrow> int list \<Rightarrow> bool \<Rightarrow> view \<Rightarrow> outcome" where
  "apply_patch e patch pts reset v =
     (let cached = in_cached_mode (settings v);
          args = apply_args v reset;
          v1 = v\<lparr>log := log v @ [GitCall args (Some patch)]\<rparr>
      in case git e (log v) args (Some patch) of
           GitFail err \<Rightarrow> (Some (GitSavvyError err), v1)
         | GitOk out \<Rightarrow>
             GsDiffRefreshCommand_run e True
               (v1\<lparr>settings := (settings v1)
                      \<lparr>history := history (settings v1) @ [(args, patch, pts, cached)],
                       just_hunked := patch\<rparr>\<rparr>))"

text \<open>
  \<^verbatim>\<open>filter_(head_and_hunk_for_pt(diff, pt) for pt in cursor_pts)\<close>: the pairs found, in the
  order of the points; the first exception ends the iteration.
\<close>

fun heads_and_hunks :: "ParsedDiff \<Rightarrow> int list \<Rightarrow> error + (region \<times> region) list" where
  "heads_and_hunks diff [] = Inr []"
| "heads_and_hunks diff (pt # pts) =
     (case head_and_hunk_for_pt diff pt of
        Inl err \<Rightarrow> Inl err
      | Inr r \<Rightarrow>
          (case heads_and_hunks diff pts of
             Inl err \<Rightarrow> Inl err
           | Inr rs \<Rightarrow> Inr (case r of None \<Rightarrow> rs | Some hh \<Rightarrow> hh # rs)))"

text \<open>\<^verbatim>\<open>chain.from_iterable\<close> on header and hunk pairs.\<close>

definition flatten :: "(region \<times> region) list \<Rightarrow> region list" where
  "flatten hhs = concat (map (\<lambda>(header, hunk). [header, hunk]) hhs)"

definition cursor_points :: "view \<Rightarrow> int list" where
  "cursor_points v = map fst (filter (\<lambda>(a, b). a = b) (sel v))"

definition patches_for :: "ParsedDiff \<Rightarrow> int list \<Rightarrow> error + region list" where
  "patches_for diff cursor_pts =
     (case heads_and_hunks diff cursor_pts of
        Inl err \<Rightarrow> Inl err
      | Inr hhs \<Rightarrow> Inr (unique (flatten hhs)))"

definition synthesize_patch :: "view \<Rightarrow> error + string" where
  "synthesize_patch v =
     (case patches_for (parse_diff_in_view v) (cursor_points v) of
        Inl err \<Rightarrow> Inl err
      | Inr patches \<Rightarrow> Inr (concat (map (extract_content v) patches)))"

definition GsDiffStageOrResetHunkCommand_run :: "env \<Rightarrow> bool \<Rightarrow> view \<Rightarrow> outcome" where
  "GsDiffStageOrResetHunkCommand_run e reset v =
     (if ignore_whitespace (settings v) \<or> show_word_diff (settings v) then
        (None, v\<lparr>log := log v @ [ErrorMessage ''You have to be in a clean diff to stage.'']\<rparr>)
      else
        (case synthesize_patch v of
           Inl err \<Rightarrow> (Some err, v)
         | Inr patch \<Rightarrow>
             if patch \<noteq> [] then apply_patch e patch (cursor_points v) reset v
             else if has_window v then
               (None, v\<lparr>log := log v @ [StatusMessage ''Not within a hunk'']\<rparr>)
             else (None, v)))"

subsection \<open>GsDiffToggleCachedMode\<close>

text \<open>
  \<^verbatim>\<open>set_and_show_cursor(view, cursors)\<close> with a list of regions; a single point \<open>pt\<close> is
  the list with the region \<open>(pt, pt)\<close>.
\<close>

definition set_and_show_cursor :: "region list \<Rightarrow> view \<Rightarrow> view" where
  "set_and_show_cursor cursors v = v\<lparr>sel := cursors, log := log v @ [Show cursors]\<rparr>"

text \<open>
  \<^verbatim>\<open>GsDiffToggleCachedMode.run\<close>. \<^verbatim>\<open>pickle_sel\<close> and \<^verbatim>\<open>unpickle_sel\<close> are the identity on
  lists of pairs. \<^verbatim>\<open>self.view.window().status_message\<close> raises AttributeError when the
  view has no window. \<^verbatim>\<open>no_animations\<close> sets and restores an editor preference and
  leaves no trace on the view.
\<close>

definition GsDiffToggleCachedMode_run :: "env \<Rightarrow> view \<Rightarrow> outcome" where
  "GsDiffToggleCachedMode_run e v =
     (let st = settings v
      in if str_truthy (base_commit st) \<and> str_truthy (target_commit st) then
           GsDiffRefreshCommand_run e True
             (v\<lparr>settings := st\<lparr>base_commit := target_commit st,
                                 target_commit := base_commit st\<rparr>\<rparr>)
         else
           (let old_cursors = last_cursors st;
                next_mode = (\<not> in_cached_mode st);
                v1 = v\<lparr>settings := st\<lparr>last_cursors := sel v, in_cached_mode := next_mode\<rparr>\<rparr>
            in if \<not> has_window v then (Some AttributeError, v1)
               else
                 (case GsDiffRefreshCommand_run e True
                         (v1\<lparr>log := log v1 @
                            [StatusMessage (''Showing '' @
                               (if next_mode then ''staged'' else ''unstaged'') @ '' changes'')]\<rparr>) of
                    (Some err, v2) \<Rightarrow> (Some err, v2)
                  | (None, v2) \<Rightarrow>
                      (let hunked = just_hunked (settings v2)
                       in if hunked \<noteq> [] \<and> old_cursors \<noteq> [] then
                            (let v3 = v2\<lparr>settings := (settings v2)\<lparr>just_hunked := []\<rparr>\<rparr>
                             in case find_hunk_in_view v3 hunked of
                                  Some region \<Rightarrow>
                                    (None, set_and_show_cursor [(fst region, fst region)] v3)
                                | None \<Rightarrow> (None, set_and_show_cursor old_cursors v3))
                          else if old_cursors \<noteq> [] then
                            (None, set_and_show_cursor old_cursors v2)
                          else (None, v2)))))"

section \<open>Predicates for the statements\<close>




section \<open>Example views\<close>

definition example_buffer :: string where
  "example_buffer = join_nl
     ['''',
      ''  UNSTAGED CHANGES'',
      '''',
      ''--'',
      ''diff --git a/x b/x'',
      ''index 1..2 100644'',
      ''--- a/x'',
      ''+++ b/x'',
      ''@@ -1 +1 @@'',
      ''-a'',
      ''+b'',
      ''diff --git a/y b/y'',
      ''index 1..2 100644'',
      ''--- a/y'',
      ''+++ b/y'',
      ''@@ -1 +1 @@'',
      ''-a'',
      ''+b'',
      '''']"

definition example_settings :: settings where
  "example_settings =
     \<lparr>in_cached_mode = False, ignore_whitespace = False, show_word_diff = False,
      context_lines = Some 3, base_commit = None, target_commit = None,
      show_diffstat = False, disable_stage = False, history = [], just_hunked = [],
      last_cursors = [], raw_diff = None, disable_diff = False\<rparr>"

definition example_view :: view where
  "example_view =
     \<lparr>content = example_buffer, sel = [], has_window = True, file_path = None,
      repo_path = ''/repo'', settings = example_settings, log = []\<rparr>"

text \<open>
  An outside world in which every call of git succeeds with empty output and the cursor
  commands leave the selection where it is.
\<close>

definition quiet_env :: env where
  "quiet_env =
     \<lparr>git = (\<lambda>l args stdin. GitOk []), relpath = (\<lambda>p start. p),
      restore_cursors = (\<lambda>t v. sel v), navigate = (\<lambda>v. sel v)\<rparr>"

text \<open>An outside world in which the output of git cannot be decoded.\<close>

definition undecodable_env :: env where
  "undecodable_env =
     \<lparr>git = (\<lambda>l args stdin. GitFail UnicodeDecodeError), relpath = (\<lambda>p start. p),
      restore_cursors = (\<lambda>t v. sel v), navigate = (\<lambda>v. sel v)\<rparr>"

text \<open>The example view with refreshing disabled.\<close>

definition disabled_view :: view where
  "disabled_view = example_view\<lparr>settings := example_settings\<lparr>disable_diff := True\<rparr>\<rparr>"

text \<open>The example view ignoring whitespace.\<close>

definition unclean_view :: view where
  "unclean_view = example_view\<lparr>settings := example_settings\<lparr>ignore_whitespace := True\<rparr>\<rparr>"

text \<open>The example view comparing two commits.\<close>

definition range_view :: view where
  "range_view =
     example_view\<lparr>settings := example_settings\<lparr>base_commit := Some ''main'',
                                                   target_commit := Some ''dev''\<rparr>\<rparr>"

text \<open>The example view with one cursor in the first hunk, in and out of the cached mode.\<close>

definition cursor_view :: view where
  "cursor_view = example_view\<lparr>sel := [(80, 80)]\<rparr>"

definition cached_cursor_view :: view where
  "cached_cursor_view =
     example_view\<lparr>sel := [(80, 80)], settings := example_settings\<lparr>in_cached_mode := True\<rparr>\<rparr>"


text \<open>A view whose buffer is a hunk with no line that starts a header before it.\<close>

definition orphan_hunk_view :: view where
  "orphan_hunk_view =
     example_view\<lparr>content := join_nl [''--- a/x'', ''+++ b/x'', ''@@ -1 +1 @@'', ''-a'', ''+b'']\<rparr>"

text \<open>The header and the hunk of the first file of the example buffer.\<close>

definition example_patch :: string where
  "example_patch = join_nl
     [''diff --git a/x b/x'',
      ''index 1..2 100644'',
      ''--- a/x'',
      ''+++ b/x'',
      ''@@ -1 +1 @@'',
      ''-a'',
      ''+b'',
      '''']"

section \<open>Properties of the hunk splitter\<close>

lemmas hunk_eval_defs =
  real_rowcol_in_hunk_def split_hunk_def rstrip_def lstrip_def strip_def isspace_def NL_def
  HUNKS_LINES_RE_match_def match_lit_def startswith_def match_digits_def is_digit_def
  match_opt_count_def int_of_digits_def digit_val_def py_index_def py_slice_from_def
  line_indentation_def

lemma recount_lines_length:
  "recount_lines ls n = Inr hs \<Longrightarrow> length hs = length ls"
  by (induction ls n arbitrary: hs rule: recount_lines.induct)
     (auto split: list.splits sum.splits)

lemma recount_lines_first:
  "recount_lines ls n = Inr hs \<Longrightarrow> hs \<noteq> [] \<Longrightarrow> b (hd hs) = n"
  by (cases ls) (auto split: list.splits sum.splits)

lemma recount_lines_step:
  "recount_lines ls n = Inr hs \<Longrightarrow> Suc i < length hs \<Longrightarrow>
   b (hs ! Suc i) = (if mode (hs ! i) \<noteq> CHR ''-'' then b (hs ! i) + 1 else b (hs ! i))"
proof (induction ls n arbitrary: hs i rule: recount_lines.induct)
  case (1 n)
  then show ?case by simp
next
  case (2 line lines n)
  from "2.prems"(1) obtain c tail rest where
    line: "line = c # tail" and
    rest: "recount_lines lines (if c \<noteq> CHR ''-'' then n + 1 else n) = Inr rest" and
    hs: "hs = \<lparr>mode = c, line_text = tail, b = n\<rparr> # rest"
    by (auto split: list.splits sum.splits)
  show ?case
  proof (cases i)
    case 0
    with "2.prems"(2) hs have "rest \<noteq> []" by auto
    with recount_lines_first[OF rest] have "b (hd rest) = (if c \<noteq> CHR ''-'' then n + 1 else n)" .
    moreover have "hs ! Suc 0 = hd rest" using hs \<open>rest \<noteq> []\<close> by (simp add: hd_conv_nth)
    ultimately show ?thesis using 0 hs by simp
  next
    case (Suc j)
    with "2.prems"(2) hs have "Suc j < length rest" by simp
    from "2.IH"[OF line rest this] show ?thesis using Suc hs by simp
  qed
qed

lemma steps_sorted:
  fixes f :: "nat \<Rightarrow> int"
  assumes "\<And>i. Suc i < n \<Longrightarrow> f i \<le> f (Suc i)" "i \<le> j" "j < n"
  shows "f i \<le> f j"
  using assms(2,3)
proof (induction j)
  case 0 then show ?case by simp
next
  case (Suc j)
  show ?case
  proof (cases "i = Suc j")
    case True then show ?thesis by simp
  next
    case False
    with Suc.prems have "i \<le> j" "j < n" by auto
    with Suc.IH have "f i \<le> f j" by simp
    also have "f j \<le> f (Suc j)" using assms(1) Suc.prems by simp
    finally show ?thesis .
  qed
qed

lemma recount_lines_sorted:
  assumes "recount_lines ls n = Inr hs"
  shows "sorted (map b hs)"
proof -
  have "\<And>i. Suc i < length hs \<Longrightarrow> b (hs ! i) \<le> b (hs ! Suc i)"
    using recount_lines_step[OF assms] by auto
  then show ?thesis
    by (simp add: sorted_iff_nth_Suc)
qed

lemma recount_lines_deleted_run:
  assumes r: "recount_lines ls n = Inr hs"
    and "i \<le> j" "j < length hs" "\<forall>k. i \<le> k \<and> k < j \<longrightarrow> mode (hs ! k) = CHR ''-''"
  shows "b (hs ! i) = b (hs ! j)"
  using assms(2-)
proof (induction j)
  case 0 then show ?case by simp
next
  case (Suc j)
  show ?case
  proof (cases "i = Suc j")
    case True then show ?thesis by simp
  next
    case False
    with Suc.prems have ij: "i \<le> j" "j < length hs" by auto
    with Suc have "b (hs ! i) = b (hs ! j)" by simp
    moreover have "mode (hs ! j) = CHR ''-''" using Suc.prems ij by simp
    with recount_lines_step[OF r, of j] Suc.prems have "b (hs ! Suc j) = b (hs ! j)" by simp
    ultimately show ?thesis by simp
  qed
qed

text \<open>
  Claim C6. For every hunk that \<open>split_hunk\<close> splits, with the new-side start read from
  its header, the \<open>b\<close> fields start at that number, are non-decreasing along the
  sequence, grow by exactly 1 after every line whose mode is not \<^verbatim>\<open>-\<close> (and not at all
  after a deleted line), and every deleted line carries the \<open>b\<close> of the nearest following
  line that is not deleted.
\<close>

theorem split_hunk_line_numbers:
  assumes "split_hunk hunk = Inr (Some hs)"
  shows "(\<exists>g1 g2. HUNKS_LINES_RE_search (hd (split_nl (rstrip hunk))) = Some (g1, g2) \<and>
            (hs \<noteq> [] \<longrightarrow> b (hd hs) = int_of_digits g2)) \<and>
         sorted (map b hs) \<and>
         (\<forall>i. Suc i < length hs \<longrightarrow>
            b (hs ! Suc i) = (if mode (hs ! i) \<noteq> CHR ''-'' then b (hs ! i) + 1 else b (hs ! i))) \<and>
         (\<forall>i j. i < j \<and> j < length hs \<and> mode (hs ! j) \<noteq> CHR ''-'' \<and>
                 (\<forall>k. i \<le> k \<and> k < j \<longrightarrow> mode (hs ! k) = CHR ''-'') \<longrightarrow>
            b (hs ! i) = b (hs ! j))"
proof -
  from assms obtain head tail g1 g2 where
    sp: "split_nl (rstrip hunk) = head # tail" and
    m: "HUNKS_LINES_RE_search head = Some (g1, g2)" and
    r: "recount_lines tail (int_of_digits g2) = Inr hs"
    by (auto simp: split_hunk_def split: list.splits option.splits sum.splits)
  have 1: "\<exists>g1 g2. HUNKS_LINES_RE_search (hd (split_nl (rstrip hunk))) = Some (g1, g2) \<and>
            (hs \<noteq> [] \<longrightarrow> b (hd hs) = int_of_digits g2)"
    using sp m recount_lines_first[OF r] by simp
  have 2: "sorted (map b hs)" by (rule recount_lines_sorted[OF r])
  have 3: "\<forall>i. Suc i < length hs \<longrightarrow>
            b (hs ! Suc i) = (if mode (hs ! i) \<noteq> CHR ''-'' then b (hs ! i) + 1 else b (hs ! i))"
    using recount_lines_step[OF r] by blast
  have 4: "\<forall>i j. i < j \<and> j < length hs \<and> mode (hs ! j) \<noteq> CHR ''-'' \<and>
                 (\<forall>k. i \<le> k \<and> k < j \<longrightarrow> mode (hs ! k) = CHR ''-'') \<longrightarrow>
            b (hs ! i) = b (hs ! j)"
    using recount_lines_deleted_run[OF r] by (metis less_imp_le)
  from 1 2 3 4 show ?thesis by blast
qed

theorem split_hunk_line_numbers_witness:
  "split_hunk (join_nl [''@@ -1,3 +1,4 @@'', '' line1'', ''+line2'', ''-line3'', '' line4'']) =
     Inr (Some [\<lparr>mode = CHR '' '', line_text = ''line1'', b = 1\<rparr>,
                \<lparr>mode = CHR ''+'', line_text = ''line2'', b = 2\<rparr>,
                \<lparr>mode = CHR ''-'', line_text = ''line3'', b = 3\<rparr>,
                \<lparr>mode = CHR '' '', line_text = ''line4'', b = 3\<rparr>]) \<and>
   sorted (map b [\<lparr>mode = CHR '' '', line_text = ''line1'', b = 1\<rparr>,
                \<lparr>mode = CHR ''+'', line_text = ''line2'', b = 2\<rparr>,
                \<lparr>mode = CHR ''-'', line_text = ''line3'', b = 3\<rparr>,
                \<lparr>mode = CHR '' '', line_text = ''line4'', b = 3\<rparr>])"
proof -
  have h: "split_hunk (join_nl [''@@ -1,3 +1,4 @@'', '' line1'', ''+line2'', ''-line3'', '' line4'']) =
     Inr (Some [\<lparr>mode = CHR '' '', line_text = ''line1'', b = 1\<rparr>,
                \<lparr>mode = CHR ''+'', line_text = ''line2'', b = 2\<rparr>,
                \<lparr>mode = CHR ''-'', line_text = ''line3'', b = 3\<rparr>,
                \<lparr>mode = CHR '' '', line_text = ''line4'', b = 3\<rparr>])"
    by (simp add: hunk_eval_defs)
  from split_hunk_line_numbers[OF h] have "sorted (map b [\<lparr>mode = CHR '' '', line_text = ''line1'', b = 1\<rparr>,
                \<lparr>mode = CHR ''+'', line_text = ''line2'', b = 2\<rparr>,
                \<lparr>mode = CHR ''-'', line_text = ''line3'', b = 3\<rparr>,
                \<lparr>mode = CHR '' '', line_text = ''line4'', b = 3\<rparr>])" by blast
  with h show ?thesis by blast
qed

section \<open>Properties of symmetric shrinking\<close>

lemma shrink_list_sym_Nil: "shrink_list_sym [] = []"
  by (subst shrink_list_sym.simps) simp

lemma shrink_list_sym_Cons:
  "xs \<noteq> [] \<Longrightarrow> shrink_list_sym xs = xs # shrink_list_sym (butlast (tl xs))"
  by (subst shrink_list_sym.simps) simp

lemma shrink_list_sym_no_empty: "[] \<notin> set (shrink_list_sym xs)"
proof (induction xs rule: shrink_list_sym.induct)
  case (1 xs)
  show ?case
  proof (cases "xs = []")
    case True
    then show ?thesis by (simp add: shrink_list_sym_Nil)
  next
    case False
    with "1.IH" show ?thesis by (simp add: shrink_list_sym_Cons)
  qed
qed

lemma shrink_list_sym_last_odd:
  "odd (length xs) \<Longrightarrow> last (shrink_list_sym xs) = [xs ! (length xs div 2)]"
proof (induction xs rule: shrink_list_sym.induct)
  case (1 xs)
  from "1.prems" have ne: "xs \<noteq> []" by auto
  show ?case
  proof (cases "length xs = 1")
    case True
    then obtain x where "xs = [x]" by (cases xs) auto
    then show ?thesis by (simp add: shrink_list_sym_Cons shrink_list_sym_Nil)
  next
    case False
    with "1.prems" have len: "3 \<le> length xs" by (auto elim!: oddE)
    let ?m = "butlast (tl xs)"
    have lm: "length ?m = length xs - 2" by simp
    with len "1.prems" have oddm: "odd (length ?m)" by simp
    have "0 < length ?m" unfolding lm using len by arith
    then have mne: "?m \<noteq> []" by fastforce
    have "shrink_list_sym ?m \<noteq> []" using mne by (simp add: shrink_list_sym_Cons)
    then have "last (shrink_list_sym xs) = last (shrink_list_sym ?m)"
      using ne by (simp add: shrink_list_sym_Cons[of xs])
    also have "\<dots> = [?m ! (length ?m div 2)]" using "1.IH"[OF ne oddm] .
    also have "?m ! (length ?m div 2) = xs ! (length xs div 2)"
    proof -
      have "0 < length ?m" using mne by blast
      then have lt: "length ?m div 2 < length ?m" by (rule div_less_dividend[rotated]) simp
      have "?m ! (length ?m div 2) = tl xs ! (length ?m div 2)"
        using lt by (simp add: nth_butlast)
      also have "\<dots> = xs ! Suc (length ?m div 2)"
        using lt by (simp add: nth_tl)
      also have "Suc (length ?m div 2) = length xs div 2" using lm len by simp
      finally show ?thesis .
    qed
    finally show ?thesis .
  qed
qed

text \<open>
  Claim C8, amended. For every non-empty list \<open>shrink_list_sym\<close> yields the list itself and
  then what it yields for the list without its first and last element; for the empty list
  it yields nothing; for a list of odd length the last value yielded is the single middle
  element; the empty list is never yielded.
\<close>

theorem shrink_list_sym_yields:
  "(xs \<noteq> [] \<longrightarrow> shrink_list_sym xs = xs # shrink_list_sym (butlast (tl xs))) \<and>
   (xs = [] \<longrightarrow> shrink_list_sym xs = []) \<and>
   (odd (length xs) \<longrightarrow> last (shrink_list_sym xs) = [xs ! (length xs div 2)]) \<and>
   [] \<notin> set (shrink_list_sym xs)"
  using shrink_list_sym_no_empty[of xs] shrink_list_sym_last_odd[of xs]
    shrink_list_sym_Cons[of xs] shrink_list_sym_Nil
  by blast

theorem shrink_list_sym_yields_witness:
  "shrink_list_sym [1::nat, 2, 3] = [1, 2, 3] # shrink_list_sym [2] \<and>
   last (shrink_list_sym [1::nat, 2, 3]) = [2] \<and> [] \<notin> set (shrink_list_sym [1::nat, 2, 3])"
  using shrink_list_sym_yields[of "[1::nat, 2, 3]"] by simp

text \<open>
  Claim C8 as stated says that the generator yields the empty list as its last step. On a
  three-element list the yields are the list and its middle element, and the last one is
  not empty.
\<close>

theorem shrink_list_sym_empty_counterexample:
  "shrink_list_sym [1::nat, 2, 3] = [[1, 2, 3], [2]] \<and> last (shrink_list_sym [1::nat, 2, 3]) \<noteq> []"
  by (simp add: shrink_list_sym_Cons shrink_list_sym_Nil)

section \<open>Properties of the coordinate mapper\<close>

lemma next_available_dropWhile:
  "next_available line col rest =
     (case dropWhile (\<lambda>l. mode l \<noteq> CHR ''+'' \<and> mode l \<noteq> CHR '' '') rest of
        [] \<Rightarrow> (b line, 1)
      | nl # _ \<Rightarrow>
          if mode nl = CHR ''+'' then (b nl, min col (int (length (line_text nl)) + 1))
          else if line_indentation (line_text nl) = line_indentation (line_text line)
               then (b nl, int (line_indentation (line_text nl)) + 1)
               else (max 1 (b line - 1), 1))"
  by (induction rest) (auto simp: Let_def)

lemma recount_lines_lines:
  "recount_lines ls n = Inr hs \<Longrightarrow> map (\<lambda>l. mode l # line_text l) hs = ls"
  by (induction ls n arbitrary: hs rule: recount_lines.induct)
     (auto split: list.splits sum.splits)

lemma split_hunk_lines:
  assumes "split_hunk hunk = Inr (Some hs)"
  shows "map (\<lambda>l. mode l # line_text l) hs = tl (split_nl (rstrip hunk))"
proof -
  from assms obtain head tail g1 g2 where
    sp: "split_nl (rstrip hunk) = head # tail" and
    r: "recount_lines tail (int_of_digits g2) = Inr hs"
    by (auto simp: split_hunk_def split: list.splits option.splits sum.splits)
  from recount_lines_lines[OF r] sp show ?thesis by simp
qed

text \<open>
  Claim C3, amended. \<open>real_rowcol_in_hunk\<close> works on the text of the hunk with its
  trailing whitespace stripped (\<^verbatim>\<open>hunk.rstrip()\<close>): the body lines are the lines of the
  stripped text after the header line, each split into its first character, the mode,
  and the rest, the text. Blank context lines at the end of the hunk and the trailing
  blanks of its last line are therefore not among the body lines. When the targeted body
  line is a deleted line, the mapper scans the body lines that follow it and stops at the
  first one whose mode is \<^verbatim>\<open>+\<close> or a space, whichever comes first. A \<^verbatim>\<open>+\<close> line yields
  its \<open>b\<close> and the column \<open>min (column, len (text) + 1)\<close>; a context line yields its \<open>b\<close>
  and its indentation plus 1 when its indentation equals the deleted line's, and
  otherwise \<open>(max (1, b - 1), 1)\<close> of the deleted line. When no following body line has
  mode \<^verbatim>\<open>+\<close> or space (in particular when none follows) the result is the deleted
  line's \<open>b\<close> and column 1. In the hunk of the specification's example a cursor on the
  row of \<^verbatim>\<open>-line3\<close> resolves to line 3, column 1: the line number of the context line
  \<^verbatim>\<open>line4\<close>.
\<close>

theorem real_rowcol_on_deleted_line:
  assumes "split_hunk hunk = Inr (Some hs)"
    and "target = (if row = 0 then first_content_row 1 hs else row)"
    and "c = (if row = 0 then 1 else col)"
    and "1 \<le> target" and "target \<le> int (length hs)"
    and "line = hs ! nat (target - 1)"
    and "mode line = CHR ''-''"
  shows "map (\<lambda>l. mode l # line_text l) hs = tl (split_nl (rstrip hunk)) \<and>
     real_rowcol_in_hunk hunk (row, col) =
      Inr (Some
        (case dropWhile (\<lambda>l. mode l \<noteq> CHR ''+'' \<and> mode l \<noteq> CHR '' '') (drop (nat target) hs) of
           [] \<Rightarrow> (b line, 1)
         | nl # _ \<Rightarrow>
             if mode nl = CHR ''+'' then (b nl, min c (int (length (line_text nl)) + 1))
             else if line_indentation (line_text nl) = line_indentation (line_text line)
                  then (b nl, int (line_indentation (line_text nl)) + 1)
                  else (max 1 (b line - 1), 1))) \<and>
     real_rowcol_in_hunk
       (join_nl [''@@ -1,3 +1,4 @@'', '' line1'', ''+line2'', ''-line3'', '' line4'']) (3, col) =
       Inr (Some (3, 1))"
proof -
  from assms(4,5) have ne: "hs \<noteq> []" by auto
  have idx: "py_index hs (target - 1) = Inr line"
    using assms(4,5,6) by (simp add: py_index_def)
  have sl: "py_slice_from hs target = drop (nat target) hs"
    using assms(4) by (simp add: py_slice_from_def)
  have "real_rowcol_in_hunk hunk (row, col) =
          Inr (Some (next_available line c (drop (nat target) hs)))"
    using assms(1,2,3,7) ne idx sl by (simp add: real_rowcol_in_hunk_def Let_def)
  moreover have "real_rowcol_in_hunk
       (join_nl [''@@ -1,3 +1,4 @@'', '' line1'', ''+line2'', ''-line3'', '' line4'']) (3, col) =
       Inr (Some (3, 1))"
    by (simp add: hunk_eval_defs)
  moreover note split_hunk_lines[OF assms(1)]
  ultimately show ?thesis
    by (simp only: next_available_dropWhile simp_thms)
qed

theorem real_rowcol_on_deleted_line_witness:
  "real_rowcol_in_hunk (join_nl [''@@ -1,2 +1,2 @@'', ''-a'', ''-b'', ''+cd'']) (1, 7) =
     Inr (Some (1, 3)) \<and>
   real_rowcol_in_hunk
     (join_nl [''@@ -10,3 +10,2 @@ def f():'', ''     x = 1'', ''-    y = 2'', '' '', '''']) (2, 5) =
     Inr (Some (11, 1)) \<and>
   real_rowcol_in_hunk (join_nl [''@@ -1 +1 @@'', ''-a'', ''+foo   '', '''']) (1, 6) =
     Inr (Some (1, 4))"
proof -
  let ?hs = "[\<lparr>mode = CHR ''-'', line_text = ''a'', b = 1\<rparr>,
              \<lparr>mode = CHR ''-'', line_text = ''b'', b = 1\<rparr>,
              \<lparr>mode = CHR ''+'', line_text = ''cd'', b = 1\<rparr>]"
  have h: "split_hunk (join_nl [''@@ -1,2 +1,2 @@'', ''-a'', ''-b'', ''+cd'']) = Inr (Some ?hs)"
    by (simp add: hunk_eval_defs)
  from real_rowcol_on_deleted_line[OF h, of 1 1 7 7 "?hs ! 0", THEN conjunct2, THEN conjunct1]
  have 1: "real_rowcol_in_hunk (join_nl [''@@ -1,2 +1,2 @@'', ''-a'', ''-b'', ''+cd'']) (1, 7) =
     Inr (Some (1, 3))" by simp
  let ?ks = "[\<lparr>mode = CHR '' '', line_text = ''    x = 1'', b = 10\<rparr>,
              \<lparr>mode = CHR ''-'', line_text = ''    y = 2'', b = 11\<rparr>]"
  have k: "split_hunk
     (join_nl [''@@ -10,3 +10,2 @@ def f():'', ''     x = 1'', ''-    y = 2'', '' '', '''']) =
     Inr (Some ?ks)"
    by (simp add: hunk_eval_defs)
  from real_rowcol_on_deleted_line[OF k, of 2 2 5 5 "?ks ! 1", THEN conjunct2, THEN conjunct1]
  have 2: "real_rowcol_in_hunk
     (join_nl [''@@ -10,3 +10,2 @@ def f():'', ''     x = 1'', ''-    y = 2'', '' '', '''']) (2, 5) =
     Inr (Some (11, 1))" by simp
  let ?ms = "[\<lparr>mode = CHR ''-'', line_text = ''a'', b = 1\<rparr>,
              \<lparr>mode = CHR ''+'', line_text = ''foo'', b = 1\<rparr>]"
  have m: "split_hunk (join_nl [''@@ -1 +1 @@'', ''-a'', ''+foo   '', '''']) = Inr (Some ?ms)"
    by (simp add: hunk_eval_defs)
  from real_rowcol_on_deleted_line[OF m, of 1 1 6 6 "?ms ! 0", THEN conjunct2, THEN conjunct1]
  have 3: "real_rowcol_in_hunk (join_nl [''@@ -1 +1 @@'', ''-a'', ''+foo   '', '''']) (1, 6) =
     Inr (Some (1, 4))" by simp
  from 1 2 3 show ?thesis by blast
qed

text \<open>
  Claim C3 as stated gives the first \<^verbatim>\<open>+\<close> line priority over context lines. In the
  hunk below the deleted line is followed by a context line and then by a \<^verbatim>\<open>+\<close> line;
  the result comes from the context line, not from the \<^verbatim>\<open>+\<close> line.
\<close>

theorem real_rowcol_first_plus_counterexample:
  "split_hunk (join_nl [''@@ -1,2 +1,2 @@'', ''-a'', '' b'', ''+c'']) =
     Inr (Some [\<lparr>mode = CHR ''-'', line_text = ''a'', b = 1\<rparr>,
                \<lparr>mode = CHR '' '', line_text = ''b'', b = 1\<rparr>,
                \<lparr>mode = CHR ''+'', line_text = ''c'', b = 2\<rparr>]) \<and>
   real_rowcol_in_hunk (join_nl [''@@ -1,2 +1,2 @@'', ''-a'', '' b'', ''+c'']) (1, 1) =
     Inr (Some (1, 1)) \<and>
   real_rowcol_in_hunk (join_nl [''@@ -1,2 +1,2 @@'', ''-a'', '' b'', ''+c'']) (1, 1) \<noteq>
     Inr (Some (2, min 1 (int (length ''c'') + 1)))"
  by (simp add: hunk_eval_defs)

section \<open>Properties of the refresh command\<close>

lemma refresh_disabled:
  "disable_diff (settings v) \<Longrightarrow> GsDiffRefreshCommand_run e sync v = (None, v)"
  by (simp add: GsDiffRefreshCommand_run_def GsDiffRefreshCommand_run_impl_def)

lemma refreshes_disabled:
  "disable_diff (settings v) \<Longrightarrow> refreshes e syncs v = (None, v)"
  by (induction syncs) (simp_all add: refresh_disabled)

lemma refresh_sets_flag:
  "\<not> disable_diff (settings v) \<Longrightarrow>
   disable_diff (settings (snd (GsDiffRefreshCommand_run e sync v))) =
     (git e (log v) (diff_args v) None = GitFail UnicodeDecodeError)"
  by (auto simp: GsDiffRefreshCommand_run_def GsDiffRefreshCommand_run_impl_def Let_def
        gs_replace_view_text_def gs_diff_navigate_def split: git_outcome.splits)

lemma refresh_frame:
  assumes "GsDiffRefreshCommand_run e sync v = (r, v')"
  shows "in_cached_mode (settings v') = in_cached_mode (settings v) \<and>
         ignore_whitespace (settings v') = ignore_whitespace (settings v) \<and>
         show_word_diff (settings v') = show_word_diff (settings v) \<and>
         context_lines (settings v') = context_lines (settings v) \<and>
         base_commit (settings v') = base_commit (settings v) \<and>
         target_commit (settings v') = target_commit (settings v) \<and>
         show_diffstat (settings v') = show_diffstat (settings v) \<and>
         disable_stage (settings v') = disable_stage (settings v) \<and>
         history (settings v') = history (settings v) \<and>
         just_hunked (settings v') = just_hunked (settings v) \<and>
         last_cursors (settings v') = last_cursors (settings v) \<and>
         has_window v' = has_window v \<and>
         file_path v' = file_path v \<and> repo_path v' = repo_path v"
  using assms
  by (auto simp: GsDiffRefreshCommand_run_def GsDiffRefreshCommand_run_impl_def Let_def
        gs_replace_view_text_def gs_diff_navigate_def split: git_outcome.splits if_splits)

lemma refresh_log:
  "\<exists>rest. log (snd (GsDiffRefreshCommand_run e sync v)) = log v @ rest \<and>
     (\<not> disable_diff (settings v) \<longrightarrow> rest \<noteq> [] \<and> hd rest = GitCall (diff_args v) None)"
  by (auto simp: GsDiffRefreshCommand_run_def GsDiffRefreshCommand_run_impl_def Let_def
        gs_replace_view_text_def gs_diff_navigate_def split: git_outcome.splits if_splits)

text \<open>
  Claim C7. While the flag \<open>disable_diff\<close> of a view is set, a refresh of the view, and
  any sequence of refreshes, returns the view as it was: no call of git is logged, and
  neither the content nor a setting changes. A refresh of a view whose flag is not set
  sets the flag exactly when the diff computation fails with a decode error.
\<close>

theorem disabled_refresh_is_noop:
  "(disable_diff (settings v) \<longrightarrow>
      GsDiffRefreshCommand_run e sync v = (None, v) \<and> refreshes e syncs v = (None, v)) \<and>
   (\<not> disable_diff (settings v) \<longrightarrow>
      disable_diff (settings (snd (GsDiffRefreshCommand_run e sync v))) =
        (git e (log v) (diff_args v) None = GitFail UnicodeDecodeError))"
  using refresh_disabled refreshes_disabled refresh_sets_flag by blast

theorem disabled_refresh_is_noop_witness:
  "disable_diff (settings disabled_view) \<and>
   GsDiffRefreshCommand_run quiet_env True disabled_view = (None, disabled_view) \<and>
   refreshes quiet_env [True, False, True] disabled_view = (None, disabled_view) \<and>
   \<not> disable_diff (settings example_view) \<and>
   disable_diff (settings (snd (GsDiffRefreshCommand_run undecodable_env True example_view))) \<and>
   \<not> disable_diff (settings (snd (GsDiffRefreshCommand_run quiet_env True example_view)))"
proof -
  have a: "disable_diff (settings disabled_view)"
    by (simp add: disabled_view_def)
  have b: "\<not> disable_diff (settings example_view)"
    by (simp add: example_view_def example_settings_def)
  have g1: "git undecodable_env (log example_view) (diff_args example_view) None =
              GitFail UnicodeDecodeError"
    by (simp add: undecodable_env_def)
  have g2: "git quiet_env (log example_view) (diff_args example_view) None \<noteq>
              GitFail UnicodeDecodeError"
    by (simp add: quiet_env_def)
  from disabled_refresh_is_noop[of disabled_view quiet_env True "[True, False, True]"] a
  have 1: "GsDiffRefreshCommand_run quiet_env True disabled_view = (None, disabled_view) \<and>
           refreshes quiet_env [True, False, True] disabled_view = (None, disabled_view)"
    by blast
  from disabled_refresh_is_noop[of example_view undecodable_env True] b g1
  have 2: "disable_diff (settings (snd (GsDiffRefreshCommand_run undecodable_env True example_view)))"
    by blast
  from disabled_refresh_is_noop[of example_view quiet_env True] b g2
  have 3: "\<not> disable_diff (settings (snd (GsDiffRefreshCommand_run quiet_env True example_view)))"
    by blast
  from a b 1 2 3 show ?thesis by blast
qed

section \<open>Properties of the stage and reset command\<close>

text \<open>
  Claim C9. When the view ignores whitespace or shows a word diff, the stage or reset
  command shows the error message and returns: the view it leaves differs from the one
  it found only by that message in the log, so no call of git is made, the undo history
  is as it was and no setting has changed.
\<close>

theorem stage_refused_in_unclean_diff:
  assumes "ignore_whitespace (settings v) \<or> show_word_diff (settings v)"
  shows "GsDiffStageOrResetHunkCommand_run e reset v =
           (None, v\<lparr>log := log v @ [ErrorMessage ''You have to be in a clean diff to stage.'']\<rparr>) \<and>
         settings (snd (GsDiffStageOrResetHunkCommand_run e reset v)) = settings v \<and>
         history (settings (snd (GsDiffStageOrResetHunkCommand_run e reset v))) =
           history (settings v) \<and>
         (\<forall>args stdin. GitCall args stdin \<in> set (log (snd (GsDiffStageOrResetHunkCommand_run e reset v)))
             \<longrightarrow> GitCall args stdin \<in> set (log v))"
  using assms by (auto simp: GsDiffStageOrResetHunkCommand_run_def)

theorem stage_refused_in_unclean_diff_witness:
  "ignore_whitespace (settings unclean_view) \<and>
   GsDiffStageOrResetHunkCommand_run quiet_env False unclean_view =
     (None, unclean_view\<lparr>log := [ErrorMessage ''You have to be in a clean diff to stage.'']\<rparr>)"
proof -
  have h: "ignore_whitespace (settings unclean_view) \<or> show_word_diff (settings unclean_view)"
    by (simp add: unclean_view_def example_view_def example_settings_def)
  have l: "log unclean_view = []"
    by (simp add: unclean_view_def example_view_def)
  from stage_refused_in_unclean_diff[OF h, of quiet_env False] h l show ?thesis
    by (simp add: unclean_view_def example_view_def example_settings_def)
qed

section \<open>Properties of the command that toggles the cached mode\<close>

lemma refresh_settings:
  assumes "GsDiffRefreshCommand_run e sync v = (r, v')"
  shows "settings v' =
           (settings v)\<lparr>raw_diff := raw_diff (settings v'),
                         disable_diff := disable_diff (settings v')\<rparr> \<and>
         raw_diff (settings v') =
           (if disable_diff (settings v) then raw_diff (settings v)
            else case git e (log v) (diff_args v) None of
                   GitOk diff \<Rightarrow> Some diff
                 | GitFail err \<Rightarrow> raw_diff (settings v)) \<and>
         disable_diff (settings v') =
           (disable_diff (settings v) \<or>
            git e (log v) (diff_args v) None = GitFail UnicodeDecodeError)"
  using assms
  by (auto simp: GsDiffRefreshCommand_run_def GsDiffRefreshCommand_run_impl_def Let_def
        gs_replace_view_text_def gs_diff_navigate_def split: git_outcome.splits if_splits)

text \<open>
  Claim C10, amended. On a view whose base commit and target commit are both set, the
  command that toggles the cached mode is the refresh of the view with the two commits
  swapped. In the view it leaves the two commits are swapped and every other setting is
  as before, except the two settings that the refresh itself writes: \<open>raw_diff\<close>, which
  becomes the output of git when git succeeds, and \<open>disable_diff\<close>, which becomes set when
  git fails with a decode error. In particular the cached mode, the history, the last
  patch, the number of context lines, the toggles, the other flags and the saved cursors
  are unchanged. Unless refreshing is disabled, the call of git for the diff of the
  swapped commits is logged.
\<close>

theorem toggle_cached_mode_swaps_commits:
  assumes "str_truthy (base_commit (settings v))" and "str_truthy (target_commit (settings v))"
    and "v' = snd (GsDiffToggleCachedMode_run e v)"
    and "w = v\<lparr>settings := (settings v)\<lparr>base_commit := target_commit (settings v),
                                           target_commit := base_commit (settings v)\<rparr>\<rparr>"
  shows "GsDiffToggleCachedMode_run e v = GsDiffRefreshCommand_run e True w \<and>
         settings v' =
           (settings v)\<lparr>base_commit := target_commit (settings v),
                         target_commit := base_commit (settings v),
                         raw_diff := raw_diff (settings v'),
                         disable_diff := disable_diff (settings v')\<rparr> \<and>
         raw_diff (settings v') =
           (if disable_diff (settings v) then raw_diff (settings v)
            else case git e (log v) (diff_args w) None of
                   GitOk diff \<Rightarrow> Some diff
                 | GitFail err \<Rightarrow> raw_diff (settings v)) \<and>
         disable_diff (settings v') =
           (disable_diff (settings v) \<or>
            git e (log v) (diff_args w) None = GitFail UnicodeDecodeError) \<and>
         base_commit (settings v') = target_commit (settings v) \<and>
         target_commit (settings v') = base_commit (settings v) \<and>
         in_cached_mode (settings v') = in_cached_mode (settings v) \<and>
         history (settings v') = history (settings v) \<and>
         just_hunked (settings v') = just_hunked (settings v) \<and>
         context_lines (settings v') = context_lines (settings v) \<and>
         ignore_whitespace (settings v') = ignore_whitespace (settings v) \<and>
         show_word_diff (settings v') = show_word_diff (settings v) \<and>
         show_diffstat (settings v') = show_diffstat (settings v) \<and>
         disable_stage (settings v') = disable_stage (settings v) \<and>
         last_cursors (settings v') = last_cursors (settings v) \<and>
         (\<not> disable_diff (settings v) \<longrightarrow>
            (\<exists>rest. log v' = log v @ GitCall (diff_args w) None # rest))"
proof -
  have eq: "GsDiffToggleCachedMode_run e v = GsDiffRefreshCommand_run e True w"
    using assms(1,2,4) by (simp add: GsDiffToggleCachedMode_run_def Let_def)
  obtain r where r: "GsDiffRefreshCommand_run e True w = (r, v')"
    using assms(3) eq by (metis prod.collapse)
  have w: "settings w = (settings v)\<lparr>base_commit := target_commit (settings v),
                                       target_commit := base_commit (settings v)\<rparr>"
    "log w = log v"
    using assms(4) by simp_all
  note fr = refresh_frame[OF r]
  note st = refresh_settings[OF r]
  have s1: "settings v' =
           (settings v)\<lparr>base_commit := target_commit (settings v),
                         target_commit := base_commit (settings v),
                         raw_diff := raw_diff (settings v'),
                         disable_diff := disable_diff (settings v')\<rparr>"
    using st[THEN conjunct1] unfolding w by simp
  have s2: "raw_diff (settings v') =
           (if disable_diff (settings v) then raw_diff (settings v)
            else case git e (log v) (diff_args w) None of
                   GitOk diff \<Rightarrow> Some diff
                 | GitFail err \<Rightarrow> raw_diff (settings v))"
    using st[THEN conjunct2, THEN conjunct1] unfolding w
    by (simp split: git_outcome.splits)
  have s3: "disable_diff (settings v') =
           (disable_diff (settings v) \<or>
            git e (log v) (diff_args w) None = GitFail UnicodeDecodeError)"
    using st[THEN conjunct2, THEN conjunct2] unfolding w by simp
  obtain rest where rest: "log v' = log w @ rest"
    "\<not> disable_diff (settings w) \<longrightarrow> rest \<noteq> [] \<and> hd rest = GitCall (diff_args w) None"
    using refresh_log[of e True w] r by auto
  have lg: "\<not> disable_diff (settings v) \<longrightarrow>
            (\<exists>rest. log v' = log v @ GitCall (diff_args w) None # rest)"
  proof
    assume "\<not> disable_diff (settings v)"
    with rest(2) have "rest \<noteq> []" "hd rest = GitCall (diff_args w) None"
      unfolding w by simp_all
    then have "rest = GitCall (diff_args w) None # tl rest" by (cases rest) simp_all
    with rest(1) have "log v' = log v @ GitCall (diff_args w) None # tl rest"
      unfolding w by simp
    then show "\<exists>rest. log v' = log v @ GitCall (diff_args w) None # rest" by blast
  qed
  have fr': "base_commit (settings v') = target_commit (settings v) \<and>
         target_commit (settings v') = base_commit (settings v) \<and>
         in_cached_mode (settings v') = in_cached_mode (settings v) \<and>
         history (settings v') = history (settings v) \<and>
         just_hunked (settings v') = just_hunked (settings v) \<and>
         context_lines (settings v') = context_lines (settings v) \<and>
         ignore_whitespace (settings v') = ignore_whitespace (settings v) \<and>
         show_word_diff (settings v') = show_word_diff (settings v) \<and>
         show_diffstat (settings v') = show_diffstat (settings v) \<and>
         disable_stage (settings v') = disable_stage (settings v) \<and>
         last_cursors (settings v') = last_cursors (settings v)"
    using fr unfolding w by simp
  from eq s1 s2 s3 fr' lg show ?thesis by blast
qed

theorem toggle_cached_mode_swaps_commits_witness:
  "str_truthy (base_commit (settings range_view)) \<and>
   str_truthy (target_commit (settings range_view)) \<and>
   base_commit (settings (snd (GsDiffToggleCachedMode_run quiet_env range_view))) = Some ''dev'' \<and>
   target_commit (settings (snd (GsDiffToggleCachedMode_run quiet_env range_view))) = Some ''main'' \<and>
   in_cached_mode (settings (snd (GsDiffToggleCachedMode_run quiet_env range_view))) = False \<and>
   raw_diff (settings (snd (GsDiffToggleCachedMode_run quiet_env range_view))) = Some [] \<and>
   disable_diff (settings (snd (GsDiffToggleCachedMode_run quiet_env range_view))) = False"
proof -
  have h1: "str_truthy (base_commit (settings range_view))"
    by (simp add: range_view_def str_truthy_def)
  have h2: "str_truthy (target_commit (settings range_view))"
    by (simp add: range_view_def str_truthy_def)
  have s1: "target_commit (settings range_view) = Some ''dev''"
    by (simp add: range_view_def)
  have s2: "base_commit (settings range_view) = Some ''main''"
    by (simp add: range_view_def)
  have s3: "in_cached_mode (settings range_view) = False"
    by (simp add: range_view_def example_settings_def)
  have s4: "disable_diff (settings range_view) = False"
    by (simp add: range_view_def example_settings_def)
  have g: "\<And>l a. git quiet_env l a None = GitOk []"
    by (simp add: quiet_env_def)
  note t = toggle_cached_mode_swaps_commits[OF h1 h2 refl refl, of quiet_env]
  from t have "base_commit (settings (snd (GsDiffToggleCachedMode_run quiet_env range_view))) =
                 target_commit (settings range_view)" by blast
  moreover from t have "target_commit (settings (snd (GsDiffToggleCachedMode_run quiet_env range_view))) =
                 base_commit (settings range_view)" by blast
  moreover from t have "in_cached_mode (settings (snd (GsDiffToggleCachedMode_run quiet_env range_view))) =
                 in_cached_mode (settings range_view)" by blast
  moreover from t[THEN conjunct2, THEN conjunct2, THEN conjunct1]
  have "raw_diff (settings (snd (GsDiffToggleCachedMode_run quiet_env range_view))) = Some []"
    unfolding s4 g by simp
  moreover from t[THEN conjunct2, THEN conjunct2, THEN conjunct2, THEN conjunct1]
  have "disable_diff (settings (snd (GsDiffToggleCachedMode_run quiet_env range_view))) = False"
    unfolding s4 g by simp
  ultimately show ?thesis using h1 h2 s1 s2 s3 by simp
qed

text \<open>
  Claim C10 as stated says that all other settings of the view are unchanged. On the
  example view that compares two commits the setting \<open>raw_diff\<close> is not set before the
  command and holds the output of git after it.
\<close>

theorem toggle_cached_mode_raw_diff_counterexample:
  "raw_diff (settings range_view) = None \<and>
   raw_diff (settings (snd (GsDiffToggleCachedMode_run quiet_env range_view))) = Some [] \<and>
   settings (snd (GsDiffToggleCachedMode_run quiet_env range_view)) \<noteq>
     (settings range_view)\<lparr>base_commit := target_commit (settings range_view),
                            target_commit := base_commit (settings range_view)\<rparr>"
  by code_simp

section \<open>Properties of the query for header and hunk\<close>

lemma tuple_less_trans: "tuple_less x y \<Longrightarrow> tuple_less y z \<Longrightarrow> tuple_less x z"
  by (auto simp: tuple_less_def)

lemma tuple_less_total: "x = y \<or> tuple_less x y \<or> tuple_less y x"
  by (cases x; cases y) (auto simp: tuple_less_def)

lemma tuple_max_mem: "tuple_max x xs \<in> set (x # xs)"
  unfolding tuple_max_def
  by (induction xs arbitrary: x) auto

lemma tuple_max_Cons:
  "tuple_max x (a # xs) = tuple_max (if tuple_less x a then a else x) xs"
  by (simp add: tuple_max_def)

lemma tuple_max_ge_start:
  "tuple_max x xs = x \<or> tuple_less x (tuple_max x xs)"
proof (induction xs arbitrary: x)
  case Nil
  then show ?case by (simp add: tuple_max_def)
next
  case (Cons a xs)
  show ?case
  proof (cases "tuple_less x a")
    case True
    then have step: "tuple_max x (a # xs) = tuple_max a xs" by (simp add: tuple_max_Cons)
    from Cons.IH[of a] have "tuple_less x (tuple_max a xs)"
    proof
      assume "tuple_max a xs = a"
      with True show ?thesis by simp
    next
      assume "tuple_less a (tuple_max a xs)"
      with True show ?thesis by (rule tuple_less_trans)
    qed
    then show ?thesis unfolding step by simp
  next
    case False
    then have step: "tuple_max x (a # xs) = tuple_max x xs" by (simp add: tuple_max_Cons)
    from Cons.IH[of x] show ?thesis unfolding step .
  qed
qed

lemma tuple_max_greatest:
  "y \<in> set (x # xs) \<Longrightarrow> y = tuple_max x xs \<or> tuple_less y (tuple_max x xs)"
proof (induction xs arbitrary: x)
  case Nil
  then show ?case by (simp add: tuple_max_def)
next
  case (Cons a xs)
  let ?m = "if tuple_less x a then a else x"
  have step: "tuple_max x (a # xs) = tuple_max ?m xs"
    by (rule tuple_max_Cons)
  have top: "tuple_max ?m xs = ?m \<or> tuple_less ?m (tuple_max ?m xs)"
    by (rule tuple_max_ge_start)
  have "y \<in> set (?m # xs) \<or> tuple_less y ?m"
  proof (cases "tuple_less x a")
    case True
    with Cons.prems show ?thesis by auto
  next
    case False
    with tuple_less_total[of x a] have "a = x \<or> tuple_less a x" by auto
    with False Cons.prems show ?thesis by auto
  qed
  then show ?case
  proof
    assume "y \<in> set (?m # xs)"
    from Cons.IH[OF this] show ?thesis unfolding step .
  next
    assume "tuple_less y ?m"
    with top have "tuple_less y (tuple_max ?m xs)"
      using tuple_less_trans[of y ?m "tuple_max ?m xs"] by auto
    then show ?thesis unfolding step by simp
  qed
qed

text \<open>
  Claim C4. For every parsed diff and point: when the point lies in no hunk span, taken
  as the half-open interval from start to end, \<open>head_and_hunk_for_pt\<close> returns None. When
  it lies in a hunk span, take the first such hunk of the list: if no header pair is
  below the hunk's pair in the order of tuples the call raises ValueError; otherwise it
  returns that hunk with a header of the diff that is below the hunk's pair and is the
  greatest such header.
\<close>

theorem head_and_hunk_for_pt_cases:
  "((\<forall>h \<in> set (hunks diff). \<not> (fst h \<le> pt \<and> pt < snd h)) \<longrightarrow>
      head_and_hunk_for_pt diff pt = Inr None) \<and>
   (\<forall>i. i < length (hunks diff) \<and>
        fst (hunks diff ! i) \<le> pt \<and> pt < snd (hunks diff ! i) \<and>
        (\<forall>j < i. \<not> (fst (hunks diff ! j) \<le> pt \<and> pt < snd (hunks diff ! j))) \<longrightarrow>
      ((\<forall>h \<in> set (headers diff). \<not> tuple_less h (hunks diff ! i)) \<longrightarrow>
         head_and_hunk_for_pt diff pt = Inl ValueError) \<and>
      ((\<exists>h \<in> set (headers diff). tuple_less h (hunks diff ! i)) \<longrightarrow>
         (\<exists>header. head_and_hunk_for_pt diff pt = Inr (Some (header, hunks diff ! i)) \<and>
            header \<in> set (headers diff) \<and> tuple_less header (hunks diff ! i) \<and>
            (\<forall>h \<in> set (headers diff). tuple_less h (hunks diff ! i) \<longrightarrow>
               h = header \<or> tuple_less h header))))"
proof (intro conjI allI impI)
  assume "\<forall>h \<in> set (hunks diff). \<not> (fst h \<le> pt \<and> pt < snd h)"
  then have "find (\<lambda>(hunk_start, hunk_end). hunk_start \<le> pt \<and> pt < hunk_end) (hunks diff) = None"
    by (auto simp: find_None_iff)
  then show "head_and_hunk_for_pt diff pt = Inr None"
    by (simp add: head_and_hunk_for_pt_def)
next
  fix i
  assume a: "i < length (hunks diff) \<and>
        fst (hunks diff ! i) \<le> pt \<and> pt < snd (hunks diff ! i) \<and>
        (\<forall>j < i. \<not> (fst (hunks diff ! j) \<le> pt \<and> pt < snd (hunks diff ! j)))"
  let ?hunk = "hunks diff ! i"
  have f: "find (\<lambda>(hunk_start, hunk_end). hunk_start \<le> pt \<and> pt < hunk_end) (hunks diff) = Some ?hunk"
    unfolding find_Some_iff using a by (auto simp: case_prod_beta intro!: exI[of _ i])
  {
    assume "\<forall>h \<in> set (headers diff). \<not> tuple_less h ?hunk"
    then have "filter (\<lambda>header. tuple_less header ?hunk) (headers diff) = []"
      by (simp add: filter_empty_conv)
    with f show "head_and_hunk_for_pt diff pt = Inl ValueError"
      by (simp add: head_and_hunk_for_pt_def)
  }
  {
    assume "\<exists>h \<in> set (headers diff). tuple_less h ?hunk"
    then have "filter (\<lambda>header. tuple_less header ?hunk) (headers diff) \<noteq> []"
      by (simp add: filter_empty_conv)
    then obtain c cs where cs: "filter (\<lambda>header. tuple_less header ?hunk) (headers diff) = c # cs"
      by (cases "filter (\<lambda>header. tuple_less header ?hunk) (headers diff)") auto
    let ?m = "tuple_max c cs"
    have r: "head_and_hunk_for_pt diff pt = Inr (Some (?m, ?hunk))"
      using f cs by (simp add: head_and_hunk_for_pt_def)
    have "?m \<in> set (c # cs)" by (rule tuple_max_mem)
    then have m: "?m \<in> set (headers diff)" "tuple_less ?m ?hunk"
      unfolding cs[symmetric] by auto
    have g: "\<forall>h \<in> set (headers diff). tuple_less h ?hunk \<longrightarrow> h = ?m \<or> tuple_less h ?m"
    proof (intro ballI impI)
      fix h assume "h \<in> set (headers diff)" "tuple_less h ?hunk"
      then have "h \<in> set (c # cs)" unfolding cs[symmetric] by simp
      then show "h = ?m \<or> tuple_less h ?m" by (rule tuple_max_greatest)
    qed
    from r m g show "\<exists>header. head_and_hunk_for_pt diff pt = Inr (Some (header, ?hunk)) \<and>
            header \<in> set (headers diff) \<and> tuple_less header ?hunk \<and>
            (\<forall>h \<in> set (headers diff). tuple_less h ?hunk \<longrightarrow>
               h = header \<or> tuple_less h header)" by blast
  }
qed


lemma example_parse:
  "parse_diff_in_view example_view =
     \<lparr>headers = [(24, 77), (95, 148)], hunks = [(77, 95), (148, 167)]\<rparr>"
  by code_simp

lemma orphan_parse:
  "parse_diff_in_view orphan_hunk_view = \<lparr>headers = [], hunks = [(16, 34)]\<rparr>"
  by code_simp

theorem head_and_hunk_for_pt_cases_witness:
  "head_and_hunk_for_pt (parse_diff_in_view example_view) 10 = Inr None \<and>
   head_and_hunk_for_pt (parse_diff_in_view example_view) 150 =
     Inr (Some ((95, 148), (148, 167))) \<and>
   head_and_hunk_for_pt (parse_diff_in_view orphan_hunk_view) 20 = Inl ValueError"
proof -
  let ?d = "\<lparr>headers = [(24, 77), (95, 148)], hunks = [(77, 95), (148, 167)]\<rparr>"
  let ?o = "\<lparr>headers = [], hunks = [(16, 34)]\<rparr> :: ParsedDiff"
  have 1: "head_and_hunk_for_pt ?d 10 = Inr None"
    using head_and_hunk_for_pt_cases[of ?d 10] by simp
  have "\<exists>header. head_and_hunk_for_pt ?d 150 = Inr (Some (header, hunks ?d ! 1)) \<and>
            header \<in> set (headers ?d) \<and> tuple_less header (hunks ?d ! 1) \<and>
            (\<forall>h \<in> set (headers ?d). tuple_less h (hunks ?d ! 1) \<longrightarrow>
               h = header \<or> tuple_less h header)"
    using head_and_hunk_for_pt_cases[of ?d 150, THEN conjunct2, rule_format, of 1]
    by (simp add: tuple_less_def)
  then obtain header where h: "head_and_hunk_for_pt ?d 150 = Inr (Some (header, (148, 167)))"
    "header = (24, 77) \<or> header = (95, 148)"
    "(95, 148) = header \<or> tuple_less (95, 148) header"
    by (auto simp: tuple_less_def)
  from h(2,3) have "header = (95, 148)" by (auto simp: tuple_less_def)
  with h(1) have 2: "head_and_hunk_for_pt ?d 150 = Inr (Some ((95, 148), (148, 167)))" by simp
  have 3: "head_and_hunk_for_pt ?o 20 = Inl ValueError"
    using head_and_hunk_for_pt_cases[of ?o 20, THEN conjunct2, rule_format, of 0] by simp
  from 1 2 3 show ?thesis by (simp only: example_parse orphan_parse simp_thms)
qed

section \<open>Properties of applying a patch\<close>

lemma apply_patch_log:
  "\<exists>rest. log (snd (apply_patch e patch pts reset v)) =
     log v @ GitCall (apply_args v reset) (Some patch) # rest"
proof (cases "git e (log v) (apply_args v reset) (Some patch)")
  case (GitFail err)
  then show ?thesis by (simp add: apply_patch_def Let_def)
next
  case (GitOk out)
  let ?v1 = "v\<lparr>log := log v @ [GitCall (apply_args v reset) (Some patch)]\<rparr>"
  let ?v2 = "?v1\<lparr>settings := (settings ?v1)
                      \<lparr>history := history (settings ?v1) @
                         [(apply_args v reset, patch, pts, in_cached_mode (settings v))],
                       just_hunked := patch\<rparr>\<rparr>"
  have "apply_patch e patch pts reset v = GsDiffRefreshCommand_run e True ?v2"
    using GitOk by (simp add: apply_patch_def Let_def)
  moreover obtain rest where "log (snd (GsDiffRefreshCommand_run e True ?v2)) = log ?v2 @ rest"
    using refresh_log[of e True ?v2] by blast
  ultimately have "log (snd (apply_patch e patch pts reset v)) =
     log v @ GitCall (apply_args v reset) (Some patch) # rest" by simp
  then show ?thesis by blast
qed

text \<open>
  Claim C1, amended. For every run of the stage or reset command in a clean diff with a
  non-empty synthesized patch, the first thing the command does is one call of git
  apply with the patch on standard input. Out of the cached mode, staging passes no
  reverse flag and \<^verbatim>\<open>--cached\<close> (the index only), and resetting passes \<^verbatim>\<open>-R\<close> and no
  \<^verbatim>\<open>--cached\<close> (what the source calls the index and the working tree). In the cached
  mode the call passes \<^verbatim>\<open>-R\<close> and \<^verbatim>\<open>--cached\<close> whether reset is set or not: no
  combination is left without an action by the command.
\<close>

theorem stage_or_reset_apply_arguments:
  assumes "\<not> ignore_whitespace (settings v)" and "\<not> show_word_diff (settings v)"
    and "synthesize_patch v = Inr patch" and "patch \<noteq> []"
    and "v' = snd (GsDiffStageOrResetHunkCommand_run e reset v)"
    and "cached = in_cached_mode (settings v)"
  shows "\<exists>flags rest.
           log v' = log v @
             GitCall ([Some ''apply''] @ flags @
                      [if context_lines (settings v) = Some 0 then Some ''--unidiff-zero'' else None,
                       Some ''-'']) (Some patch) # rest \<and>
           (\<not> cached \<and> \<not> reset \<longrightarrow> flags = [None, Some ''--cached'']) \<and>
           (\<not> cached \<and> reset \<longrightarrow> flags = [Some ''-R'', None]) \<and>
           (cached \<and> reset \<longrightarrow> flags = [Some ''-R'', Some ''--cached'']) \<and>
           (cached \<and> \<not> reset \<longrightarrow> flags = [Some ''-R'', Some ''--cached''])"
proof -
  have run: "GsDiffStageOrResetHunkCommand_run e reset v =
               apply_patch e patch (cursor_points v) reset v"
    using assms(1-4) by (simp add: GsDiffStageOrResetHunkCommand_run_def)
  obtain rest where
    "log v' = log v @ GitCall (apply_args v reset) (Some patch) # rest"
    using apply_patch_log[of e patch "cursor_points v" reset v] run assms(5) by auto
  moreover have "apply_args v reset =
      [Some ''apply''] @
      [if reset \<or> cached then Some ''-R'' else None,
       if cached \<or> \<not> reset then Some ''--cached'' else None] @
      [if context_lines (settings v) = Some 0 then Some ''--unidiff-zero'' else None, Some ''-'']"
    using assms(6) by (simp add: apply_args_def Let_def)
  ultimately show ?thesis
    by (intro exI[of _ "[if reset \<or> cached then Some ''-R'' else None,
       if cached \<or> \<not> reset then Some ''--cached'' else None]"] exI[of _ rest]) simp
qed

lemma cursor_patch:
  "synthesize_patch cursor_view = Inr example_patch"
  by code_simp

theorem stage_or_reset_apply_arguments_witness:
  "\<exists>rest. log (snd (GsDiffStageOrResetHunkCommand_run quiet_env True cursor_view)) =
     GitCall [Some ''apply'', Some ''-R'', None, None, Some ''-''] (Some example_patch) # rest"
proof -
  have h1: "\<not> ignore_whitespace (settings cursor_view)"
    by (simp add: cursor_view_def example_view_def example_settings_def)
  have h2: "\<not> show_word_diff (settings cursor_view)"
    by (simp add: cursor_view_def example_view_def example_settings_def)
  have h4: "example_patch \<noteq> []"
    by (simp add: example_patch_def)
  have c: "in_cached_mode (settings cursor_view) = False" "log cursor_view = []"
    "context_lines (settings cursor_view) = Some 3"
    by (simp_all add: cursor_view_def example_view_def example_settings_def)
  from stage_or_reset_apply_arguments[OF h1 h2 cursor_patch h4 refl refl, of quiet_env True]
  show ?thesis unfolding c by auto
qed

text \<open>
  Claim C1 as stated says that in the cached mode with reset not set nothing is done.
  On the example view in the cached mode, with a cursor in the first hunk, the command
  calls git apply in reverse on the index.
\<close>

theorem stage_in_cached_mode_counterexample:
  "hd (log (snd (GsDiffStageOrResetHunkCommand_run quiet_env False cached_cursor_view))) =
     GitCall [Some ''apply'', Some ''-R'', Some ''--cached'', None, Some ''-'']
       (Some example_patch) \<and>
   log (snd (GsDiffStageOrResetHunkCommand_run quiet_env False cached_cursor_view)) \<noteq>
     log cached_cursor_view"
  by code_simp

section \<open>Properties of the patch synthesizer\<close>

lemma tuple_less_irrefl: "\<not> tuple_less x x"
  by (simp add: tuple_less_def)

















lemma sorted_wrt_tuple_less_distinct: "sorted_wrt tuple_less xs \<Longrightarrow> distinct xs"
proof (induction xs)
  case Nil
  then show ?case by simp
next
  case (Cons a xs)
  then have "\<forall>x \<in> set xs. tuple_less a x" by simp
  then have "a \<notin> set xs" using tuple_less_irrefl by blast
  with Cons show ?case by simp
qed






section \<open>Properties of finding a hunk again\<close>

lemma split_nl_nonempty: "split_nl s \<noteq> []"
  by (induction s) (auto split: list.splits)

lemma split_nl_append_NL: "split_nl (xs @ NL # ys) = split_nl xs @ split_nl ys"
proof (induction xs)
  case Nil
  then show ?case by simp
next
  case (Cons c cs)
  show ?case
  proof (cases "c = NL")
    case True
    with Cons show ?thesis by simp
  next
    case False
    obtain l ls where l: "split_nl cs = l # ls"
      using split_nl_nonempty[of cs] by (cases "split_nl cs") auto
    with False Cons show ?thesis by simp
  qed
qed

lemma split_nl_hd: "hd (split_nl s) = takeWhile (\<lambda>c. c \<noteq> NL) s"
proof (induction s)
  case Nil
  then show ?case by simp
next
  case (Cons c cs)
  obtain l ls where l: "split_nl cs = l # ls"
    using split_nl_nonempty[of cs] by (cases "split_nl cs") auto
  with Cons show ?case by auto
qed

lemma startswith_Nil: "p \<noteq> [] \<Longrightarrow> \<not> startswith [] p"
  by (auto simp: startswith_def)

lemma find_literal_from_first:
  assumes "p \<noteq> []"
  shows "startswith (drop n s) p \<Longrightarrow>
         \<exists>m \<le> n. find_literal_from i p s = (i + int m, i + int m + int (length p)) \<and>
                  startswith (drop m s) p \<and> (\<forall>j < m. \<not> startswith (drop j s) p)"
proof (induction s arbitrary: i n)
  case Nil
  with assms startswith_Nil show ?case by simp
next
  case (Cons c cs)
  show ?case
  proof (cases "startswith (c # cs) p")
    case True
    then have "find_literal_from i p (c # cs) = (i + int 0, i + int 0 + int (length p))"
      by simp
    with True show ?thesis by (intro exI[of _ 0]) simp
  next
    case False
    with Cons.prems obtain n' where n: "n = Suc n'" by (cases n) auto
    with Cons.prems have "startswith (drop n' cs) p" by simp
    from Cons.IH[OF this, of "i + 1"] obtain m where
      m: "m \<le> n'" "find_literal_from (i + 1) p cs = (i + 1 + int m, i + 1 + int m + int (length p))"
      "startswith (drop m cs) p" "\<forall>j < m. \<not> startswith (drop j cs) p"
      by blast
    have 1: "find_literal_from i p (c # cs) =
               (i + int (Suc m), i + int (Suc m) + int (length p))"
      using False m(2) by simp
    have 2: "startswith (drop (Suc m) (c # cs)) p" using m(3) by simp
    have 3: "\<forall>j < Suc m. \<not> startswith (drop j (c # cs)) p"
    proof (intro allI impI)
      fix j assume "j < Suc m"
      show "\<not> startswith (drop j (c # cs)) p"
      proof (cases j)
        case 0
        with False show ?thesis by simp
      next
        case (Suc j')
        with \<open>j < Suc m\<close> m(4) show ?thesis by simp
      qed
    qed
    from m(1) n 1 2 3 show ?thesis by (intro exI[of _ "Suc m"]) simp
  qed
qed

lemma takeWhile_prefix: "take (length (takeWhile P xs)) xs = takeWhile P xs"
  by (simp add: takeWhile_eq_take[symmetric])

lemma startswith_take_prefix:
  assumes "take (length fl) k = fl" and "k = take n xs"
  shows "startswith xs fl"
proof -
  have "length (take (length fl) k) = length fl" using assms(1) by simp
  then have "length fl \<le> length k" by simp
  also have "length k \<le> n" using assms(2) by simp
  finally have "min (length fl) n = length fl" by simp
  with assms show ?thesis by (simp add: startswith_def)
qed

lemma hunk_first_line_occurs:
  assumes "0 \<le> fst hunk" and "fst hunk \<le> snd hunk"
  shows "startswith (drop (nat (fst hunk)) (content v))
           (takeWhile (\<lambda>c. c \<noteq> NL) (extract_content v hunk))"
proof -
  let ?k = "extract_content v hunk"
  have lo: "max 0 (min (fst hunk) (snd hunk)) = fst hunk" using assms by simp
  have k: "?k = take (nat (min (view_size v) (max (fst hunk) (snd hunk)) - fst hunk))
                  (drop (nat (fst hunk)) (content v))"
    by (simp add: extract_content_def view_substr_def Let_def lo)
  show ?thesis
    by (rule startswith_take_prefix[OF takeWhile_prefix k])
qed

lemma dropWhile_all: "\<forall>x \<in> set xs. P x \<Longrightarrow> dropWhile P (xs @ ys) = dropWhile P ys"
  by (induction xs) auto

lemma startswith_takeWhile:
  assumes "startswith k ''@@ ''"
  shows "startswith (takeWhile (\<lambda>c. c \<noteq> NL) k) ''@@ ''"
proof -
  from assms obtain r where k: "k = ''@@ '' @ r"
    unfolding startswith_def by (metis append_take_drop_id)
  show ?thesis unfolding k by (simp add: startswith_def NL_def)
qed

lemma extract_first_hunk_patch:
  assumes k: "startswith k ''@@ ''"
    and h: "h = [] \<or> last h = NL"
    and nh: "\<forall>l \<in> set (split_nl h). not_hunk_start l"
  shows "\<exists>rest. extract_first_hunk (h @ k) = Some (takeWhile (\<lambda>c. c \<noteq> NL) k # rest)"
proof -
  let ?fl = "takeWhile (\<lambda>c. c \<noteq> NL) k"
  obtain ls where sk: "split_nl k = ?fl # ls"
    using split_nl_nonempty[of k] split_nl_hd[of k] by (cases "split_nl k") auto
  have fl: "\<not> not_hunk_start ?fl"
    using startswith_takeWhile[OF k] by (simp add: not_hunk_start_def)
  have "\<exists>pre. split_nl (h @ k) = pre @ split_nl k \<and> (\<forall>l \<in> set pre. not_hunk_start l)"
  proof (cases "h = []")
    case True
    then show ?thesis by (intro exI[of _ "[]"]) simp
  next
    case False
    with h have "last h = NL" by simp
    with False have hh: "h = butlast h @ [NL]" by (metis append_butlast_last_id)
    have "split_nl (h @ k) = split_nl (butlast h @ NL # k)"
      by (subst hh) simp
    also have "\<dots> = split_nl (butlast h) @ split_nl k" by (rule split_nl_append_NL)
    finally have 1: "split_nl (h @ k) = split_nl (butlast h) @ split_nl k" .
    have "split_nl h = split_nl (butlast h @ NL # [])" by (subst hh) simp
    also have "\<dots> = split_nl (butlast h) @ split_nl []" by (rule split_nl_append_NL)
    finally have "set (split_nl (butlast h)) \<subseteq> set (split_nl h)" by auto
    with nh have "\<forall>l \<in> set (split_nl (butlast h)). not_hunk_start l" by blast
    with 1 show ?thesis by blast
  qed
  then obtain pre where pre: "split_nl (h @ k) = pre @ split_nl k"
    "\<forall>l \<in> set pre. not_hunk_start l" by blast
  have "dropWhile not_hunk_start (split_nl (h @ k)) = dropWhile not_hunk_start (split_nl k)"
    unfolding pre(1) by (rule dropWhile_all[OF pre(2)])
  also have "\<dots> = ?fl # ls" unfolding sk using fl by simp
  finally show ?thesis by (simp add: extract_first_hunk_def)
qed

text \<open>
  Claim C5, amended. Take a header span and a hunk span of the buffer such that the text
  of the hunk starts with \<^verbatim>\<open>@@\<close> and a space, the text of the header is empty or ends
  with a newline, and no line of the header text starts with \<^verbatim>\<open>@@\<close> and a space.
  Searching the header text followed by the hunk text with \<open>find_hunk_in_view\<close> in the
  same buffer returns the region of the first occurrence in the buffer of the hunk's
  first line. That occurrence starts at or before the start of the hunk span; it starts
  at the start of the hunk span when the text of that line occurs nowhere earlier in the
  buffer.
\<close>

theorem find_hunk_in_view_first_occurrence:
  assumes "0 \<le> fst hunk" and "fst hunk \<le> snd hunk"
    and "startswith (extract_content v hunk) ''@@ ''"
    and "extract_content v header = [] \<or> last (extract_content v header) = NL"
    and "\<forall>l \<in> set (split_nl (extract_content v header)). not_hunk_start l"
    and "first_line = takeWhile (\<lambda>c. c \<noteq> NL) (extract_content v hunk)"
  shows "\<exists>m. find_hunk_in_view v (extract_content v header @ extract_content v hunk) =
               Some (int m, int m + int (length first_line)) \<and>
             startswith (drop m (content v)) first_line \<and>
             (\<forall>j < m. \<not> startswith (drop j (content v)) first_line) \<and>
             int m \<le> fst hunk \<and>
             ((\<forall>j \<in> set [0 ..< nat (fst hunk)]. \<not> startswith (drop j (content v)) first_line)
                \<longrightarrow> int m = fst hunk)"
proof -
  from extract_first_hunk_patch[OF assms(3,4,5)] assms(6) obtain rest where
    e: "extract_first_hunk (extract_content v header @ extract_content v hunk) =
          Some (first_line # rest)" by blast
  have ne: "first_line \<noteq> []"
    using startswith_takeWhile[OF assms(3)] assms(6) by (auto simp: startswith_def)
  have occ: "startswith (drop (nat (fst hunk)) (content v)) first_line"
    unfolding assms(6) by (rule hunk_first_line_occurs[OF assms(1,2)])
  from find_literal_from_first[OF ne occ, of 0] obtain m where
    m: "m \<le> nat (fst hunk)"
    "find_literal_from 0 first_line (content v) = (int m, int m + int (length first_line))"
    "startswith (drop m (content v)) first_line"
    "\<forall>j < m. \<not> startswith (drop j (content v)) first_line"
    by auto
  have rb: "region_bool (int m, int m + int (length first_line))"
    using ne by (simp add: region_bool_def)
  have 1: "find_hunk_in_view v (extract_content v header @ extract_content v hunk) =
             Some (int m, int m + int (length first_line))"
    using e m(2) rb by (simp add: find_hunk_in_view_def view_find_def Let_def)
  have 2: "int m \<le> fst hunk" using m(1) assms(1) by simp
  have 3: "(\<forall>j \<in> set [0 ..< nat (fst hunk)]. \<not> startswith (drop j (content v)) first_line)
             \<longrightarrow> int m = fst hunk"
  proof
    assume a: "\<forall>j \<in> set [0 ..< nat (fst hunk)]. \<not> startswith (drop j (content v)) first_line"
    have "\<not> m < nat (fst hunk)"
    proof
      assume "m < nat (fst hunk)"
      with a have "\<not> startswith (drop m (content v)) first_line" by simp
      with m(3) show False by simp
    qed
    with m(1) have "m = nat (fst hunk)" by simp
    with assms(1) show "int m = fst hunk" by simp
  qed
  from 1 m(3,4) 2 3 show ?thesis by blast
qed

lemma example_hunk_starts:
  "startswith (extract_content example_view (77, 95)) ''@@ ''"
  by code_simp

lemma example_header_ends:
  "extract_content example_view (24, 77) = [] \<or>
   last (extract_content example_view (24, 77)) = NL"
  by code_simp

lemma example_header_lines:
  "\<forall>l \<in> set (split_nl (extract_content example_view (24, 77))). not_hunk_start l"
  by code_simp

lemma example_no_earlier:
  "\<forall>j \<in> set [0 ..< nat 77].
     \<not> startswith (drop j (content example_view))
          (takeWhile (\<lambda>c. c \<noteq> NL) (extract_content example_view (77, 95)))"
  by code_simp

lemma example_first_line_length:
  "length (takeWhile (\<lambda>c. c \<noteq> NL) (extract_content example_view (77, 95))) = 11"
  by code_simp

theorem find_hunk_in_view_first_occurrence_witness:
  "find_hunk_in_view example_view
     (extract_content example_view (24, 77) @ extract_content example_view (77, 95)) =
   Some (77, 88)"
proof -
  have h1: "0 \<le> fst (77 :: int, 95 :: int)" by simp
  have h2: "fst (77 :: int, 95 :: int) \<le> snd (77 :: int, 95 :: int)" by simp
  from find_hunk_in_view_first_occurrence[OF h1 h2 example_hunk_starts example_header_ends
      example_header_lines refl]
  obtain m where
    m: "find_hunk_in_view example_view
          (extract_content example_view (24, 77) @ extract_content example_view (77, 95)) =
        Some (int m, int m +
          int (length (takeWhile (\<lambda>c. c \<noteq> NL) (extract_content example_view (77, 95)))))"
    and s: "(\<forall>j \<in> set [0 ..< nat (fst (77 :: int, 95 :: int))].
               \<not> startswith (drop j (content example_view))
                    (takeWhile (\<lambda>c. c \<noteq> NL) (extract_content example_view (77, 95))))
            \<longrightarrow> int m = fst (77 :: int, 95 :: int)"
    by blast
  from s example_no_earlier have "int m = 77" by simp
  with m example_first_line_length show ?thesis by simp
qed

text \<open>
  Claim C5 as stated returns the start of the hunk span for every hunk span. In the
  example buffer the hunks of the two files begin with the same line; for the second
  hunk, which starts at offset 148, the search returns the first hunk's line at offset 77.
\<close>

theorem find_hunk_in_view_second_hunk_counterexample:
  "head_and_hunk_for_pt (parse_diff_in_view example_view) 150 =
     Inr (Some ((95, 148), (148, 167))) \<and>
   find_hunk_in_view example_view
     (extract_content example_view (95, 148) @ extract_content example_view (148, 167)) =
     Some (77, 88) \<and>
   map_option fst (find_hunk_in_view example_view
     (extract_content example_view (95, 148) @ extract_content example_view (148, 167))) \<noteq>
     Some (fst (148 :: int, 167 :: int))"
  by code_simp

end
